theory Spec2Isabelle
  imports Complex_Main
begin

section \<open>STREL formulas (the AST consumed by \<^verbatim>\<open>automatix/afa/strel.py\<close>)\<close>

text \<open>
  The module \<^verbatim>\<open>automatix.logic.strel\<close> is not part of the sources at hand; the
  visitor of \<^verbatim>\<open>afa/strel.py\<close> pattern-matches on its node classes, which fixes
  their shape. Temporal bounds are the integers the visitor matches with
  \<^verbatim>\<open>int(t)\<close>; spatial bounds are floats, here the reals and \<open>+\<infinity>\<close>
  (rounding is not modelled).
\<close>

type_synonym Location = nat

datatype TimeInterval = TimeInterval (t_start: "int option") (t_end: "int option")

datatype bound = Fin real | PInf

datatype DistanceInterval = DistanceInterval (d_start: "real option") (d_end: "bound option")

datatype Expr =
    Constant bool
  | Identifier string
  | NotOp Expr
  | AndOp Expr Expr
  | OrOp Expr Expr
  | NextOp "int option" Expr
  | EventuallyOp "TimeInterval option" Expr
  | GloballyOp "TimeInterval option" Expr
  | UntilOp Expr "TimeInterval option" Expr
  | SomewhereOp DistanceInterval Expr
  | EverywhereOp DistanceInterval Expr
  | ReachOp Expr DistanceInterval Expr
  | EscapeOp DistanceInterval Expr

text \<open>Python exceptions that the module can raise.\<close>

datatype error =
    NotImplementedError string
  | AssertionError
  | KeyError
  | StopIteration
  | NetworkXError
  | TypeError
  | RecursionError
  | Hangs

section \<open>Polynomials of the Boolean manager\<close>

text \<open>
  A variable is named \<^verbatim>\<open>str((str(phi), loc))\<close>; the pair it prints is kept
  as the name.
\<close>

type_synonym vname = "string \<times> Location"

text \<open>
  Modelled from the spec: the polynomial manager (\<^verbatim>\<open>BooleanPolynomial\<close> over a BDD)
  is an external interface: \<open>top\<close>, \<open>bottom\<close>, \<open>const\<close>, \<open>declare\<close>, sum, product,
  negation, \<open>support\<close>, \<open>let\<close>, \<open>eval\<close> and \<open>is_top\<close>.
\<close>

datatype Poly =
    PTop
  | PBottom
  | PVar vname
  | PAdd Poly Poly
  | PMul Poly Poly
  | PNeg Poly

section \<open>Input graphs\<close>

text \<open>
  An \<^verbatim>\<open>nx.Graph\<close>: its nodes, and for each node its neighbours in adjacency order,
  each with the attribute dictionary of the edge.
\<close>

record Graph =
  nodes :: "Location list"
  adj :: "Location \<Rightarrow> (Location \<times> (string \<times> real) list) list"

section \<open>The transition table\<close>

text \<open>
  The closures that \<^verbatim>\<open>_ExprMapper\<close> installs, as data: one constructor per
  \<^verbatim>\<open>lambda\<close> (or local function) of the visitor, holding what the closure captures.
\<close>

datatype Transition =
    TLabel Expr
  | TNegate Expr
  | TTimes Expr Expr
  | TPlus Expr Expr
  | TVarOf Expr
  | TCallPlusVar Expr Expr
  | TUntilStep Expr Expr Expr
  | TCheckReach Expr Expr real bound string

type_synonym Q = "Expr \<times> Location"

text \<open>
  The \<^verbatim>\<open>Transitions\<close> dataclass. Its manager is the Boolean one; \<open>declared\<close> logs the
  calls of \<^verbatim>\<open>manager.declare\<close>. \<open>str_expr\<close> is \<^verbatim>\<open>str\<close> on formulas, which the
  sources at hand do not define; it is carried along with the table.
\<close>

record Transitions =
  str_expr :: "Expr \<Rightarrow> string"
  label_fn :: "Graph \<Rightarrow> Location \<Rightarrow> string \<Rightarrow> bool"
  declared :: "vname list"
  transitions :: "(Q \<times> (Transition \<times> Location)) list"
  const_mapping :: "(Q \<times> Poly) list"
  aliases :: "(Expr \<times> Expr) list"

text \<open>\<^verbatim>\<open>dict.setdefault\<close> on a dictionary kept in insertion order.\<close>

definition setdefault :: "'k \<Rightarrow> 'v \<Rightarrow> ('k \<times> 'v) list \<Rightarrow> ('k \<times> 'v) list" where
  "setdefault k v d = (case map_of d k of None \<Rightarrow> d @ [(k, v)] | Some _ \<Rightarrow> d)"

section \<open>The compiler \<^verbatim>\<open>_ExprMapper\<close>\<close>

text \<open>
  The visitor's fields. \<open>expr_var_map\<close> and \<open>transitions\<close> of the Python object are
  the dictionaries of its \<open>Transitions\<close> object, so the record extends that one.
\<close>

record ExprMapper = Transitions +
  max_locs :: nat
  dist_attr :: string
  var_node_map :: "(vname \<times> Q) list"

text \<open>
  \<^verbatim>\<open>_ExprMapper.__init__\<close>: \<open>dist_attr or "weight"\<close> replaces an absent and an
  empty name.
\<close>

definition ExprMapper_init ::
  "(Expr \<Rightarrow> string) \<Rightarrow> (Graph \<Rightarrow> Location \<Rightarrow> string \<Rightarrow> bool) \<Rightarrow> nat \<Rightarrow> string option
    \<Rightarrow> error + ExprMapper" where
  "ExprMapper_init str lbl n attr =
     (if \<not> 0 < n then Inl AssertionError
      else Inr \<lparr> str_expr = str, label_fn = lbl, declared = [], transitions = [],
                 const_mapping = [], aliases = [], max_locs = n,
                 dist_attr = (case attr of None \<Rightarrow> ''weight''
                              | Some a \<Rightarrow> if a = [] then ''weight'' else a),
                 var_node_map = [] \<rparr>)"

definition add_expr_alias :: "Expr \<Rightarrow> Expr \<Rightarrow> ExprMapper \<Rightarrow> ExprMapper" where
  "add_expr_alias phi expr m =
     fold (\<lambda>loc m. m\<lparr> aliases := setdefault phi expr (aliases m),
                       var_node_map := setdefault (str_expr m phi, loc) (phi, loc) (var_node_map m) \<rparr>)
       [0..<max_locs m] m"

text \<open>
  \<^verbatim>\<open>_add_transition\<close>. The argument \<open>manager.declare(...)\<close> of the first
  \<open>setdefault\<close> is evaluated on every call, present key or not.
\<close>

definition add_transition :: "Expr \<Rightarrow> Transition \<Rightarrow> ExprMapper \<Rightarrow> ExprMapper" where
  "add_transition phi tr m =
     fold (\<lambda>loc m. m\<lparr> declared := declared m @ [(str_expr m phi, loc)],
                       const_mapping := setdefault (phi, loc) (PVar (str_expr m phi, loc)) (const_mapping m),
                       var_node_map := setdefault (str_expr m phi, loc) (phi, loc) (var_node_map m),
                       transitions := setdefault (phi, loc) (tr, loc) (transitions m) \<rparr>)
       [0..<max_locs m] m"

text \<open>\<^verbatim>\<open>_expand_add_next\<close>: \<open>range(steps, 1, -1)\<close> is \<open>steps, ..., 2\<close>.\<close>

definition expand_add_next :: "int option \<Rightarrow> Expr \<Rightarrow> ExprMapper \<Rightarrow> ExprMapper" where
  "expand_add_next steps arg m =
     (let n = (case steps of None \<Rightarrow> 1 | Some s \<Rightarrow> s);
          m1 = fold (\<lambda>i. add_transition (NextOp (Some i) arg) (TVarOf (NextOp (Some (i - 1)) arg)))
                 (rev [2..n]) m
      in add_transition (NextOp (Some 1) arg) (TVarOf arg) m1)"

text \<open>The \<^verbatim>\<open>match phi.interval\<close> of \<^verbatim>\<open>_expand_add_eventually\<close>, in case order.\<close>

datatype ev_case = EvUntimed | EvUpTo int | EvFrom int | EvWindow int int

fun match_eventually :: "TimeInterval option \<Rightarrow> ev_case" where
  "match_eventually None = EvUntimed"
| "match_eventually (Some (TimeInterval None None)) = EvUntimed"
| "match_eventually (Some (TimeInterval (Some s) None)) = (if s = 0 then EvUntimed else EvFrom s)"
| "match_eventually (Some (TimeInterval None (Some t2))) = EvUpTo t2"
| "match_eventually (Some (TimeInterval (Some s) (Some t2))) = (if s = 0 then EvUpTo t2 else EvWindow s t2)"

text \<open>
  The second case of \<^verbatim>\<open>_expand_add_eventually\<close>: the loop over
  \<open>range(t2, 0, -1)\<close> (the first of the two loops only assigns a local).
\<close>

definition expand_eventually_upto :: "int \<Rightarrow> Expr \<Rightarrow> ExprMapper \<Rightarrow> ExprMapper" where
  "expand_eventually_upto t2 arg m =
     fold (\<lambda>i. add_transition
                  (EventuallyOp (Some (TimeInterval (Some 0) (Some i))) arg)
                  (TCallPlusVar arg
                     (if i > 1 then EventuallyOp (Some (TimeInterval (Some 0) (Some (i - 1)))) arg
                      else arg)))
       (rev [1..t2]) m"

text \<open>The \<^verbatim>\<open>match phi.interval\<close> of \<^verbatim>\<open>_expand_add_until\<close>, in case order.\<close>

datatype un_case = UnUntimed | UnFrom int | UnWindow int | UnNoMatch

fun match_until :: "TimeInterval option \<Rightarrow> un_case" where
  "match_until None = UnUntimed"
| "match_until (Some (TimeInterval None None)) = UnUntimed"
| "match_until (Some (TimeInterval (Some s) None)) = (if s = 0 then UnUntimed else UnFrom s)"
| "match_until (Some (TimeInterval (Some s) (Some t2))) = UnWindow s"
| "match_until (Some (TimeInterval None (Some t2))) = UnNoMatch"

text \<open>
  \<^verbatim>\<open>_expand_add_reach\<close>: \<open>start or 0.0\<close> and \<open>end or math.inf\<close> replace an absent
  bound and a bound equal to zero.
\<close>

definition reach_d1 :: "DistanceInterval \<Rightarrow> real" where
  "reach_d1 I = (case d_start I of None \<Rightarrow> 0 | Some s \<Rightarrow> if s = 0 then 0 else s)"

definition reach_d2 :: "DistanceInterval \<Rightarrow> bound" where
  "reach_d2 I = (case d_end I of None \<Rightarrow> PInf | Some e \<Rightarrow> if e = Fin 0 then PInf else e)"

definition expand_add_reach :: "Expr \<Rightarrow> DistanceInterval \<Rightarrow> Expr \<Rightarrow> ExprMapper \<Rightarrow> ExprMapper" where
  "expand_add_reach lhs I rhs m =
     add_transition (ReachOp lhs I rhs)
       (TCheckReach lhs rhs (reach_d1 I) (reach_d2 I) (dist_attr m)) m"

text \<open>
  The test that opens \<^verbatim>\<open>visit\<close>: \<open>str(phi) in self.expr_var_map.keys()\<close>. The keys
  of that dictionary are the tuples \<open>(phi, loc)\<close> stored by \<^verbatim>\<open>_add_transition\<close>;
  the test looks a string up among them. Both kinds of Python value are kept apart here.
\<close>

datatype pykey = KeyStr string | KeyState Expr Location

definition already_visited :: "Expr \<Rightarrow> ExprMapper \<Rightarrow> bool" where
  "already_visited phi m =
     (KeyStr (str_expr m phi) \<in> set (map (\<lambda>((e, l), _). KeyState e l) (const_mapping m)))"

text \<open>A measure for the recursion of \<^verbatim>\<open>visit\<close> through the rewrites.\<close>

fun weight :: "Expr \<Rightarrow> nat" where
  "weight (Constant b) = 1"
| "weight (Identifier n) = 1"
| "weight (NotOp a) = 1 + weight a"
| "weight (AndOp a b) = 1 + weight a + weight b"
| "weight (OrOp a b) = 1 + weight a + weight b"
| "weight (NextOp n a) = 1 + weight a"
| "weight (EventuallyOp I a) =
     weight a + (case match_eventually I of EvFrom t1 \<Rightarrow> 3 | EvWindow t1 t2 \<Rightarrow> 3 | _ \<Rightarrow> 1)"
| "weight (GloballyOp I a) = 6 + weight a"
| "weight (UntilOp a I b) =
     (case match_until I of
        UnFrom t1 \<Rightarrow> 5 + weight a + weight b
      | UnWindow t1 \<Rightarrow> 10 + weight a + 2 * weight b
      | _ \<Rightarrow> 1 + weight a + weight b)"
| "weight (SomewhereOp I a) = 3 + weight a"
| "weight (EverywhereOp I a) = 6 + weight a"
| "weight (ReachOp a I b) = 1 + weight a + weight b"
| "weight (EscapeOp I a) = 1 + weight a"

text \<open>
  \<^verbatim>\<open>visit\<close>, with the bodies of the \<^verbatim>\<open>_expand_add_*\<close> methods that call
  \<^verbatim>\<open>visit\<close> again (globally, eventually, until, somewhere, everywhere) written in
  place. \<open>~e\<close> is \<open>NotOp e\<close> and \<open>strel.true\<close> is \<open>Constant True\<close>. A class that no
  \<^verbatim>\<open>case\<close> matches (\<open>Constant\<close>) falls through.
\<close>

function visit :: "Expr \<Rightarrow> ExprMapper \<Rightarrow> error + ExprMapper" where
  "visit phi m =
     (if already_visited phi m then Inr m
      else case phi of
        Constant b \<Rightarrow> Inr m
      | Identifier name \<Rightarrow> Inr (add_transition phi (TLabel phi) m)
      | NotOp arg \<Rightarrow>
          (case visit arg m of Inl e \<Rightarrow> Inl e
           | Inr m1 \<Rightarrow> Inr (add_transition phi (TNegate arg) m1))
      | AndOp lhs rhs \<Rightarrow>
          (case visit lhs m of Inl e \<Rightarrow> Inl e
           | Inr m1 \<Rightarrow>
          (case visit rhs m1 of Inl e \<Rightarrow> Inl e
           | Inr m2 \<Rightarrow> Inr (add_transition phi (TTimes lhs rhs) m2)))
      | OrOp lhs rhs \<Rightarrow>
          (case visit lhs m of Inl e \<Rightarrow> Inl e
           | Inr m1 \<Rightarrow>
          (case visit rhs m1 of Inl e \<Rightarrow> Inl e
           | Inr m2 \<Rightarrow> Inr (add_transition phi (TPlus lhs rhs) m2)))
      | EverywhereOp I arg \<Rightarrow>
          (case visit arg m of Inl e \<Rightarrow> Inl e
           | Inr m1 \<Rightarrow>
          (case visit (NotOp (SomewhereOp I (NotOp arg))) m1 of Inl e \<Rightarrow> Inl e
           | Inr m2 \<Rightarrow>
              (let m3 = add_expr_alias phi (NotOp (SomewhereOp I (NotOp arg))) m2
               in Inl (NotImplementedError []))))
      | SomewhereOp I arg \<Rightarrow>
          (case visit arg m of Inl e \<Rightarrow> Inl e
           | Inr m1 \<Rightarrow>
          (case visit (ReachOp (Constant True) I arg) m1 of Inl e \<Rightarrow> Inl e
           | Inr m2 \<Rightarrow> Inr (add_expr_alias phi (ReachOp (Constant True) I arg) m2)))
      | EscapeOp I arg \<Rightarrow>
          (case visit arg m of Inl e \<Rightarrow> Inl e
           | Inr m1 \<Rightarrow> Inl (NotImplementedError ''We currently don't support escape''))
      | ReachOp lhs I rhs \<Rightarrow>
          (case visit lhs m of Inl e \<Rightarrow> Inl e
           | Inr m1 \<Rightarrow>
          (case visit rhs m1 of Inl e \<Rightarrow> Inl e
           | Inr m2 \<Rightarrow> Inr (expand_add_reach lhs I rhs m2)))
      | NextOp steps arg \<Rightarrow>
          (case visit arg m of Inl e \<Rightarrow> Inl e
           | Inr m1 \<Rightarrow> Inr (expand_add_next steps arg m1))
      | GloballyOp I arg \<Rightarrow>
          (case visit arg m of Inl e \<Rightarrow> Inl e
           | Inr m1 \<Rightarrow>
          (case visit (NotOp (EventuallyOp I (NotOp arg))) m1 of Inl e \<Rightarrow> Inl e
           | Inr m2 \<Rightarrow> Inr (add_expr_alias phi (NotOp (EventuallyOp I (NotOp arg))) m2)))
      | EventuallyOp I arg \<Rightarrow>
          (case visit arg m of Inl e \<Rightarrow> Inl e
           | Inr m1 \<Rightarrow>
          (case match_eventually I of
             EvUntimed \<Rightarrow> Inr (add_transition phi (TCallPlusVar arg phi) m1)
           | EvUpTo t2 \<Rightarrow> Inr (expand_eventually_upto t2 arg m1)
           | EvFrom t1 \<Rightarrow>
               (case visit (NextOp (Some t1) (EventuallyOp None arg)) m1 of Inl e \<Rightarrow> Inl e
                | Inr m2 \<Rightarrow>
                    Inr (add_expr_alias phi (NextOp (Some t1) (EventuallyOp None arg)) m2))
           | EvWindow t1 t2 \<Rightarrow>
               (case visit (NextOp (Some t1)
                              (EventuallyOp (Some (TimeInterval (Some 0) (Some (t2 - t1)))) arg)) m1
                of Inl e \<Rightarrow> Inl e
                | Inr m2 \<Rightarrow>
                    Inr (add_expr_alias phi
                           (NextOp (Some t1)
                              (EventuallyOp (Some (TimeInterval (Some 0) (Some (t2 - t1)))) arg)) m2))))
      | UntilOp lhs I rhs \<Rightarrow>
          (case visit lhs m of Inl e \<Rightarrow> Inl e
           | Inr m1 \<Rightarrow>
          (case visit rhs m1 of Inl e \<Rightarrow> Inl e
           | Inr m2 \<Rightarrow>
          (case match_until I of
             UnUntimed \<Rightarrow> Inr (add_transition phi (TUntilStep lhs rhs phi) m2)
           | UnFrom t1 \<Rightarrow>
               (case visit (NotOp (EventuallyOp (Some (TimeInterval (Some 0) (Some t1)))
                                     (NotOp (UntilOp lhs None rhs)))) m2
                of Inl e \<Rightarrow> Inl e
                | Inr m3 \<Rightarrow>
                    Inr (add_expr_alias phi
                           (NotOp (EventuallyOp (Some (TimeInterval (Some 0) (Some t1)))
                                     (NotOp (UntilOp lhs None rhs)))) m3))
           | UnWindow t1 \<Rightarrow>
               (case visit (AndOp (EventuallyOp I rhs)
                              (UntilOp lhs (Some (TimeInterval (Some t1) None)) rhs)) m2
                of Inl e \<Rightarrow> Inl e
                | Inr m3 \<Rightarrow>
                    Inr (add_expr_alias phi
                           (AndOp (EventuallyOp I rhs)
                              (UntilOp lhs (Some (TimeInterval (Some t1) None)) rhs)) m3))
           | UnNoMatch \<Rightarrow> Inr m2))))"
  by pat_completeness auto
termination
  by (relation "measure (\<lambda>(phi, m). weight phi)")
     (auto split: ev_case.splits un_case.splits if_splits)

section \<open>The path enumerator \<^verbatim>\<open>_all_reach_edge_paths\<close>\<close>

text \<open>
  An edge as the loop handles it: the node it leaves (\<open>None\<close> for the dummy edge that
  enters the source), the node it enters, and a distance.
\<close>

type_synonym edge = "Location option \<times> Location \<times> real"

definition le_bound :: "real \<Rightarrow> bound \<Rightarrow> bool" where
  "le_bound x b = (case b of PInf \<Rightarrow> True | Fin y \<Rightarrow> x \<le> y)"

text \<open>
  \<^verbatim>\<open>graph.edges(node, data=dist_attr, default=1.0)\<close>: the triples \<open>(node, v, w)\<close> over
  the neighbours of \<open>node\<close>; networkx raises for a node that is not in the graph.
\<close>

definition get_edges :: "Graph \<Rightarrow> string \<Rightarrow> Location \<Rightarrow> error + edge list" where
  "get_edges G attr node =
     (if node \<in> set (nodes G)
      then Inr (map (\<lambda>(v, d). (Some node, v, (case map_of d attr of None \<Rightarrow> 1 | Some w \<Rightarrow> w)))
                  (adj G node))
      else Inl NetworkXError)"

text \<open>
  The \<^verbatim>\<open>while\<close> loop. \<open>stack\<close> holds what is left of each edge iterator, the top
  of the stack first; \<open>cur\<close> is the dictionary \<open>current_path\<close> in insertion order; \<open>out\<close>
  collects the yielded paths. The result is the paths yielded and the exception, if any,
  that ends the generator.
\<close>

partial_function (option) reach_loop ::
  "Graph \<Rightarrow> real \<Rightarrow> bound \<Rightarrow> string \<Rightarrow> edge list list
    \<Rightarrow> (Location option \<times> edge option) list \<Rightarrow> edge option list list
    \<Rightarrow> (edge option list list \<times> error option) option" where
  "reach_loop G d1 d2 attr stack cur out =
     (case stack of
        [] \<Rightarrow> Some (out, None)
      | it # rest \<Rightarrow>
          (case dropWhile (\<lambda>e. Some (fst (snd e)) \<in> set (map fst cur)) it of
             [] \<Rightarrow>
               (case cur of
                  [] \<Rightarrow> Some (out, Some KeyError)
                | _ # _ \<Rightarrow> reach_loop G d1 d2 attr rest (butlast cur) out)
           | next_edge # it' \<Rightarrow>
               (case next_edge of (previous_node, next_node, next_dist) \<Rightarrow>
                 (case (case previous_node of
                          None \<Rightarrow> Inr 0
                        | Some p \<Rightarrow>
                            (case map_of cur (Some p) of
                               None \<Rightarrow> Inl KeyError
                             | Some None \<Rightarrow> Inl AssertionError
                             | Some (Some (_, _, prev_path_len)) \<Rightarrow> Inr (prev_path_len + next_dist)))
                  of
                    Inl e \<Rightarrow> Some (out, Some e)
                  | Inr new_path_len \<Rightarrow>
                      (let out' = (if d1 \<le> new_path_len \<and> le_bound new_path_len d2
                                   then out @ [drop 2 (map snd cur @ [Some next_edge])]
                                   else out)
                       in if le_bound new_path_len d2
                             \<and> (\<exists>t \<in> set (nodes G). Some t \<notin> set (map fst cur) \<and> t \<noteq> next_node)
                          then (case get_edges G attr next_node of
                                  Inl e \<Rightarrow> Some (out', Some e)
                                | Inr es \<Rightarrow>
                                    reach_loop G d1 d2 attr (es # it' # rest)
                                      (cur @ [(Some next_node,
                                               Some (previous_node, next_node, new_path_len))])
                                      out')
                          else reach_loop G d1 d2 attr (it' # rest) cur out')))))"

definition all_reach_edge_paths ::
  "Graph \<Rightarrow> Location \<Rightarrow> real \<Rightarrow> bound \<Rightarrow> string
    \<Rightarrow> (edge option list list \<times> error option) option" where
  "all_reach_edge_paths G loc d1 d2 attr =
     reach_loop G d1 d2 attr [[(None, loc, 0)]] [(None, None)] []"

section \<open>Operations of the polynomial manager\<close>

text \<open>
  Modelled from the spec: the operations of the external manager, on the Boolean carrier.
  Sums, products and negations fold constants, so that a polynomial without variables
  is \<open>PTop\<close> or \<open>PBottom\<close>, as a BDD is.
\<close>

definition poly_const :: "bool \<Rightarrow> Poly" where
  "poly_const k = (if k then PTop else PBottom)"

definition poly_add :: "Poly \<Rightarrow> Poly \<Rightarrow> Poly" where
  "poly_add p q =
     (if p = PTop \<or> q = PTop then PTop
      else if p = PBottom then q
      else if q = PBottom then p
      else PAdd p q)"

definition poly_mul :: "Poly \<Rightarrow> Poly \<Rightarrow> Poly" where
  "poly_mul p q =
     (if p = PBottom \<or> q = PBottom then PBottom
      else if p = PTop then q
      else if q = PTop then p
      else PMul p q)"

definition poly_negate :: "Poly \<Rightarrow> Poly" where
  "poly_negate p = (case p of PTop \<Rightarrow> PBottom | PBottom \<Rightarrow> PTop | _ \<Rightarrow> PNeg p)"

definition is_top :: "Poly \<Rightarrow> bool" where
  "is_top p = (p = PTop)"

fun support :: "Poly \<Rightarrow> vname list" where
  "support PTop = []"
| "support PBottom = []"
| "support (PVar v) = [v]"
| "support (PAdd p q) = remdups (support p @ support q)"
| "support (PMul p q) = remdups (support p @ support q)"
| "support (PNeg p) = support p"

text \<open>\<open>p.let(mapping)\<close>: simultaneous substitution; a variable without entry stays.\<close>

fun poly_let :: "(vname \<Rightarrow> Poly option) \<Rightarrow> Poly \<Rightarrow> Poly" where
  "poly_let s PTop = PTop"
| "poly_let s PBottom = PBottom"
| "poly_let s (PVar v) = (case s v of None \<Rightarrow> PVar v | Some p \<Rightarrow> p)"
| "poly_let s (PAdd p q) = poly_add (poly_let s p) (poly_let s q)"
| "poly_let s (PMul p q) = poly_mul (poly_let s p) (poly_let s q)"
| "poly_let s (PNeg p) = poly_negate (poly_let s p)"

text \<open>\<open>p.eval(mapping)\<close>: a variable without value is an error.\<close>

fun poly_eval :: "(vname \<Rightarrow> bool option) \<Rightarrow> Poly \<Rightarrow> error + bool" where
  "poly_eval c PTop = Inr True"
| "poly_eval c PBottom = Inr False"
| "poly_eval c (PVar v) = (case c v of None \<Rightarrow> Inl KeyError | Some b \<Rightarrow> Inr b)"
| "poly_eval c (PAdd p q) =
     (case poly_eval c p of Inl e \<Rightarrow> Inl e
      | Inr a \<Rightarrow> (case poly_eval c q of Inl e \<Rightarrow> Inl e | Inr b \<Rightarrow> Inr (a \<or> b)))"
| "poly_eval c (PMul p q) =
     (case poly_eval c p of Inl e \<Rightarrow> Inl e
      | Inr a \<Rightarrow> (case poly_eval c q of Inl e \<Rightarrow> Inl e | Inr b \<Rightarrow> Inr (a \<and> b)))"
| "poly_eval c (PNeg p) = (case poly_eval c p of Inl e \<Rightarrow> Inl e | Inr a \<Rightarrow> Inr (\<not> a))"

text \<open>
  A dictionary built by a comprehension, as the list of its items in the order they are
  produced: a later item replaces an earlier one with the same key.
\<close>

definition dict_get :: "('k \<times> 'v) list \<Rightarrow> 'k \<Rightarrow> 'v option" where
  "dict_get d = map_of (rev d)"

section \<open>Evaluating the table: \<^verbatim>\<open>Transitions.__call__\<close> and \<^verbatim>\<open>get_var\<close>\<close>

definition resolve_alias :: "Transitions \<Rightarrow> Q \<Rightarrow> Q" where
  "resolve_alias T state =
     (case map_of (aliases T) (fst state) of Some a \<Rightarrow> (a, snd state) | None \<Rightarrow> state)"

definition get_var :: "Transitions \<Rightarrow> Q \<Rightarrow> error + Poly" where
  "get_var T state =
     (case resolve_alias T state of
        (Constant v, loc) \<Rightarrow> Inr (if v then PTop else PBottom)
      | (phi, loc) \<Rightarrow>
          (case map_of (const_mapping T) (phi, loc) of None \<Rightarrow> Inl KeyError | Some p \<Rightarrow> Inr p))"

text \<open>
  The body of \<^verbatim>\<open>check_reach\<close> (a local function of \<^verbatim>\<open>_expand_add_reach\<close>).
  \<open>ev\<close> stands for \<open>self._transitions(input, _)\<close>. The inner loop multiplies the
  polynomials of \<open>lhs\<close> along \<open>reversed(path[:-1])\<close>; the outer loop consumes the
  generator path by path and returns early on \<open>is_top\<close>, so the exception that ends the
  generator is met only when every path has been consumed.
\<close>

fun path_product :: "(Q \<Rightarrow> error + Poly) \<Rightarrow> Expr \<Rightarrow> Poly \<Rightarrow> Location list \<Rightarrow> error + Poly" where
  "path_product ev lhs path_expr [] = Inr path_expr"
| "path_product ev lhs path_expr (l_p # ls) =
     (case ev (lhs, l_p) of Inl e \<Rightarrow> Inl e
      | Inr p \<Rightarrow> path_product ev lhs (poly_mul path_expr p) ls)"

fun reach_sum ::
  "(Q \<Rightarrow> error + Poly) \<Rightarrow> Location \<Rightarrow> Expr \<Rightarrow> Expr \<Rightarrow> edge option list list \<Rightarrow> error option
    \<Rightarrow> Poly \<Rightarrow> error + Poly" where
  "reach_sum ev loc lhs rhs [] err expr = (case err of None \<Rightarrow> Inr expr | Some e \<Rightarrow> Inl e)"
| "reach_sum ev loc lhs rhs (edge_path # rest) err expr =
     (case those edge_path of
        None \<Rightarrow> Inl TypeError
      | Some es \<Rightarrow>
          (let path = loc # map (\<lambda>e. fst (snd e)) es in
           case ev (rhs, last path) of Inl e \<Rightarrow> Inl e
           | Inr p \<Rightarrow>
          (case path_product ev lhs p (rev (butlast path)) of Inl e \<Rightarrow> Inl e
           | Inr path_expr \<Rightarrow>
               (let expr' = poly_add expr path_expr
                in if is_top expr' then Inr expr'
                   else reach_sum ev loc lhs rhs rest err expr'))))"

definition check_reach ::
  "(Q \<Rightarrow> error + Poly) \<Rightarrow> Expr \<Rightarrow> Expr \<Rightarrow> Location \<Rightarrow> Graph \<Rightarrow> real \<Rightarrow> bound \<Rightarrow> string
    \<Rightarrow> error + Poly" where
  "check_reach ev lhs rhs loc input d1 d2 attr =
     (case all_reach_edge_paths input loc d1 d2 attr of
        None \<Rightarrow> Inl Hangs
      | Some (paths, err) \<Rightarrow> reach_sum ev loc lhs rhs paths err PBottom)"

text \<open>
  Running an installed closure at its location. \<open>ev\<close> stands for
  \<open>self._transitions(alph, _)\<close>; operands are evaluated left to right.
\<close>

definition apply_transition ::
  "(Q \<Rightarrow> error + Poly) \<Rightarrow> Transitions \<Rightarrow> Graph \<Rightarrow> Transition \<Rightarrow> Location \<Rightarrow> error + Poly" where
  "apply_transition ev T input tr loc =
     (case tr of
        TLabel phi \<Rightarrow> ev (phi, loc)
      | TNegate arg \<Rightarrow>
          (case ev (arg, loc) of Inl e \<Rightarrow> Inl e | Inr p \<Rightarrow> Inr (poly_negate p))
      | TTimes lhs rhs \<Rightarrow>
          (case ev (lhs, loc) of Inl e \<Rightarrow> Inl e
           | Inr p \<Rightarrow> (case ev (rhs, loc) of Inl e \<Rightarrow> Inl e | Inr q \<Rightarrow> Inr (poly_mul p q)))
      | TPlus lhs rhs \<Rightarrow>
          (case ev (lhs, loc) of Inl e \<Rightarrow> Inl e
           | Inr p \<Rightarrow> (case ev (rhs, loc) of Inl e \<Rightarrow> Inl e | Inr q \<Rightarrow> Inr (poly_add p q)))
      | TVarOf sub_expr \<Rightarrow> get_var T (sub_expr, loc)
      | TCallPlusVar arg sub_expr \<Rightarrow>
          (case ev (arg, loc) of Inl e \<Rightarrow> Inl e
           | Inr p \<Rightarrow>
               (case get_var T (sub_expr, loc) of Inl e \<Rightarrow> Inl e | Inr q \<Rightarrow> Inr (poly_add p q)))
      | TUntilStep lhs rhs phi \<Rightarrow>
          (case ev (rhs, loc) of Inl e \<Rightarrow> Inl e
           | Inr p \<Rightarrow>
          (case ev (lhs, loc) of Inl e \<Rightarrow> Inl e
           | Inr q \<Rightarrow>
          (case get_var T (phi, loc) of Inl e \<Rightarrow> Inl e
           | Inr r \<Rightarrow> Inr (poly_add p (poly_mul q r)))))
      | TCheckReach lhs rhs d1 d2 attr \<Rightarrow> check_reach ev lhs rhs loc input d1 d2 attr)"

text \<open>
  \<^verbatim>\<open>Transitions.__call__\<close>. The first argument bounds the nesting of calls: the
  closures call back into the table, and Python ends a nesting that does not stop with
  \<open>RecursionError\<close>.
\<close>

primrec call :: "nat \<Rightarrow> Transitions \<Rightarrow> Graph \<Rightarrow> Q \<Rightarrow> error + Poly" where
  "call 0 T input state = Inl RecursionError"
| "call (Suc depth) T input state =
     (case resolve_alias T state of
        (Constant v, loc) \<Rightarrow> Inr (if v then PTop else PBottom)
      | (Identifier name, loc) \<Rightarrow> Inr (poly_const (label_fn T input loc name))
      | (phi, loc) \<Rightarrow>
          (case map_of (transitions T) (phi, loc) of
             None \<Rightarrow> Inl KeyError
           | Some (tr, l) \<Rightarrow> apply_transition (call depth T input) T input tr l))"

section \<open>The automaton \<^verbatim>\<open>StrelAutomaton\<close>\<close>

record StrelAutomaton =
  aut_transitions :: Transitions
  initial_expr :: Expr
  aut_var_node_map :: "(vname \<times> Q) list"
  aut_manager :: Poly
  accepting_states :: "Q list"

text \<open>
  Modelled from the spec: \<^verbatim>\<open>TimeInterval.is_untimed\<close> belongs to the formula module;
  the intervals \<open>(None, None)\<close> and \<open>(0, None)\<close> denote the untimed operator.
\<close>

definition is_untimed :: "TimeInterval \<Rightarrow> bool" where
  "is_untimed I = ((t_start I = None \<or> t_start I = Some 0) \<and> t_end I = None)"

definition is_accepting :: "Expr \<Rightarrow> Expr \<Rightarrow> bool" where
  "is_accepting init expr =
     ((case expr of
         NotOp (UntilOp lhs I rhs) \<Rightarrow> (case I of None \<Rightarrow> True | Some i \<Rightarrow> is_untimed i)
       | NotOp (EventuallyOp I arg) \<Rightarrow> (case I of None \<Rightarrow> True | Some i \<Rightarrow> is_untimed i)
       | _ \<Rightarrow> False)
      \<or> expr = init)"

text \<open>\<^verbatim>\<open>StrelAutomaton.__init__\<close>.\<close>

definition StrelAutomaton_init ::
  "Expr \<Rightarrow> Transitions \<Rightarrow> (vname \<times> Q) list \<Rightarrow> error + StrelAutomaton" where
  "StrelAutomaton_init init T vmap =
     (if set (map fst (transitions T)) \<noteq> set (map fst (const_mapping T)) then Inl AssertionError
      else case map snd (const_mapping T) of
        [] \<Rightarrow> Inl StopIteration
      | p # _ \<Rightarrow>
          Inr \<lparr> aut_transitions = T, initial_expr = init, aut_var_node_map = vmap,
                aut_manager = p,
                accepting_states =
                  filter (\<lambda>(expr, loc). is_accepting init expr) (map fst (transitions T)) \<rparr>)"

text \<open>\<^verbatim>\<open>StrelAutomaton.from_strel_expr\<close> (the polynomial argument is the Boolean manager).\<close>

definition from_strel_expr ::
  "(Expr \<Rightarrow> string) \<Rightarrow> Expr \<Rightarrow> (Graph \<Rightarrow> Location \<Rightarrow> string \<Rightarrow> bool) \<Rightarrow> nat \<Rightarrow> string option
    \<Rightarrow> error + StrelAutomaton" where
  "from_strel_expr str phi lbl n attr =
     (case ExprMapper_init str lbl n attr of Inl e \<Rightarrow> Inl e
      | Inr visitor \<Rightarrow>
     (case visit phi visitor of Inl e \<Rightarrow> Inl e
      | Inr v \<Rightarrow> StrelAutomaton_init phi (Transitions.truncate v) (var_node_map v)))"

text \<open>
  \<^verbatim>\<open>make_bool_automaton\<close>: its parameter \<open>dist_attr\<close> has the default \<open>"hop"\<close>; the
  last argument is \<open>None\<close> when the caller leaves it out.
\<close>

definition make_bool_automaton ::
  "(Expr \<Rightarrow> string) \<Rightarrow> Expr \<Rightarrow> (Graph \<Rightarrow> Location \<Rightarrow> string \<Rightarrow> bool) \<Rightarrow> nat \<Rightarrow> string option
    \<Rightarrow> error + StrelAutomaton" where
  "make_bool_automaton str phi lbl n attr =
     from_strel_expr str phi lbl n (Some (case attr of None \<Rightarrow> ''hop'' | Some a \<Rightarrow> a))"

definition states :: "StrelAutomaton \<Rightarrow> Q list" where
  "states A = map fst (const_mapping (aut_transitions A))"

definition make_q_str :: "StrelAutomaton \<Rightarrow> Q \<Rightarrow> vname" where
  "make_q_str A state = (str_expr (aut_transitions A) (fst state), snd state)"

definition initial_at :: "StrelAutomaton \<Rightarrow> Location \<Rightarrow> error + Poly" where
  "initial_at A loc = get_var (aut_transitions A) (initial_expr A, loc)"

definition final_mapping :: "StrelAutomaton \<Rightarrow> (vname \<times> bool) list" where
  "final_mapping A =
     map (\<lambda>(phi, loc). ((str_expr (aut_transitions A) phi, loc),
                         (phi, loc) \<in> set (accepting_states A)))
       (states A)"

text \<open>
  \<^verbatim>\<open>StrelAutomaton.next\<close>: the dictionary comprehension over \<open>current.support\<close>, then
  \<open>current.let\<close>.
\<close>

fun next_transitions ::
  "nat \<Rightarrow> StrelAutomaton \<Rightarrow> Graph \<Rightarrow> vname list \<Rightarrow> error + (vname \<times> Poly) list" where
  "next_transitions depth A input [] = Inr []"
| "next_transitions depth A input (var # vars) =
     (case map_of (aut_var_node_map A) var of
        None \<Rightarrow> Inl KeyError
      | Some q \<Rightarrow>
          (case call depth (aut_transitions A) input q of Inl e \<Rightarrow> Inl e
           | Inr p \<Rightarrow>
               (case next_transitions depth A input vars of Inl e \<Rightarrow> Inl e
                | Inr d \<Rightarrow> Inr ((var, p) # d))))"

definition afa_next :: "nat \<Rightarrow> StrelAutomaton \<Rightarrow> Graph \<Rightarrow> Poly \<Rightarrow> error + Poly" where
  "afa_next depth A input current =
     (case next_transitions depth A input (support current) of Inl e \<Rightarrow> Inl e
      | Inr d \<Rightarrow> Inr (poly_let (dict_get d) current))"

text \<open>The two loops of \<^verbatim>\<open>check_run\<close>.\<close>

fun run_forward :: "nat \<Rightarrow> StrelAutomaton \<Rightarrow> Graph list \<Rightarrow> Poly \<Rightarrow> error + Poly" where
  "run_forward depth A [] state = Inr state"
| "run_forward depth A (input # trace) state =
     (case afa_next depth A input state of Inl e \<Rightarrow> Inl e
      | Inr state' \<Rightarrow> run_forward depth A trace state')"

fun new_costs ::
  "nat \<Rightarrow> StrelAutomaton \<Rightarrow> Graph \<Rightarrow> (vname \<times> bool) list \<Rightarrow> Q list \<Rightarrow> error + (vname \<times> bool) list" where
  "new_costs depth A input costs [] = Inr []"
| "new_costs depth A input costs (q # qs) =
     (case call depth (aut_transitions A) input q of Inl e \<Rightarrow> Inl e
      | Inr p \<Rightarrow>
     (case poly_eval (dict_get costs) p of Inl e \<Rightarrow> Inl e
      | Inr k \<Rightarrow>
     (case new_costs depth A input costs qs of Inl e \<Rightarrow> Inl e
      | Inr d \<Rightarrow> Inr ((make_q_str A q, k) # d))))"

fun run_reverse ::
  "nat \<Rightarrow> StrelAutomaton \<Rightarrow> Graph list \<Rightarrow> (vname \<times> bool) list \<Rightarrow> error + (vname \<times> bool) list" where
  "run_reverse depth A [] costs = Inr costs"
| "run_reverse depth A (input # rtrace) costs =
     (case new_costs depth A input costs (states A) of Inl e \<Rightarrow> Inl e
      | Inr costs' \<Rightarrow> run_reverse depth A rtrace costs')"

text \<open>
  \<^verbatim>\<open>check_run\<close>; \<open>depth\<close> is the bound on nested calls that \<open>call\<close> takes.
\<close>

definition check_run ::
  "nat \<Rightarrow> StrelAutomaton \<Rightarrow> Location \<Rightarrow> Graph list \<Rightarrow> bool \<Rightarrow> error + bool" where
  "check_run depth A ego_location trace reverse_order =
     (if reverse_order
      then (case run_reverse depth A (rev trace) (final_mapping A) of Inl e \<Rightarrow> Inl e
            | Inr costs \<Rightarrow>
                (case initial_at A ego_location of Inl e \<Rightarrow> Inl e
                 | Inr p \<Rightarrow> poly_eval (dict_get costs) p))
      else (case initial_at A ego_location of Inl e \<Rightarrow> Inl e
            | Inr state \<Rightarrow>
                (case run_forward depth A trace state of Inl e \<Rightarrow> Inl e
                 | Inr state' \<Rightarrow> poly_eval (dict_get (final_mapping A)) state')))"

section \<open>Invariants of the compiler\<close>

text \<open>The closure installed for a key.\<close>

fun closure_of :: "string \<Rightarrow> Expr \<Rightarrow> Transition" where
  "closure_of a (Identifier n) = TLabel (Identifier n)"
| "closure_of a (NotOp x) = TNegate x"
| "closure_of a (AndOp l r) = TTimes l r"
| "closure_of a (OrOp l r) = TPlus l r"
| "closure_of a (NextOp s x) =
     (case s of Some i \<Rightarrow> if 2 \<le> i then TVarOf (NextOp (Some (i - 1)) x) else TVarOf x
      | None \<Rightarrow> TVarOf x)"
| "closure_of a (EventuallyOp I x) =
     (case match_eventually I of
        EvUpTo i \<Rightarrow> TCallPlusVar x (if i > 1 then EventuallyOp (Some (TimeInterval (Some 0) (Some (i - 1)))) x else x)
      | _ \<Rightarrow> TCallPlusVar x (EventuallyOp I x))"
| "closure_of a (UntilOp l I r) = TUntilStep l r (UntilOp l I r)"
| "closure_of a (ReachOp l I r) = TCheckReach l r (reach_d1 I) (reach_d2 I) a"
| "closure_of a phi = TLabel phi"

fun installable :: "Expr \<Rightarrow> bool" where
  "installable (Identifier n) = True"
| "installable (NotOp x) = True"
| "installable (AndOp l r) = True"
| "installable (OrOp l r) = True"
| "installable (NextOp s x) = (case s of Some i \<Rightarrow> 1 \<le> i | None \<Rightarrow> False)"
| "installable (EventuallyOp I x) =
     (match_eventually I = EvUntimed
      \<or> (case I of Some (TimeInterval (Some s) (Some i)) \<Rightarrow> s = 0 \<and> 1 \<le> i | _ \<Rightarrow> False))"
| "installable (UntilOp l I r) = (match_until I = UnUntimed)"
| "installable (ReachOp l I r) = True"
| "installable phi = False"

definition keys_agree :: "ExprMapper \<Rightarrow> bool" where
  "keys_agree m = (fst ` set (transitions m) = fst ` set (const_mapping m))"

definition canonical :: "ExprMapper \<Rightarrow> bool" where
  "canonical m =
     (\<forall>q tr l. map_of (transitions m) q = Some (tr, l)
        \<longrightarrow> l = snd q \<and> tr = closure_of (dist_attr m) (fst q) \<and> installable (fst q))"

primrec contains_escape :: "Expr \<Rightarrow> bool" where
  "contains_escape (Constant b) = False"
| "contains_escape (Identifier n) = False"
| "contains_escape (NotOp a) = contains_escape a"
| "contains_escape (AndOp a b) = (contains_escape a \<or> contains_escape b)"
| "contains_escape (OrOp a b) = (contains_escape a \<or> contains_escape b)"
| "contains_escape (NextOp n a) = contains_escape a"
| "contains_escape (EventuallyOp I a) = contains_escape a"
| "contains_escape (GloballyOp I a) = contains_escape a"
| "contains_escape (UntilOp a I b) = (contains_escape a \<or> contains_escape b)"
| "contains_escape (SomewhereOp I a) = contains_escape a"
| "contains_escape (EverywhereOp I a) = contains_escape a"
| "contains_escape (ReachOp a I b) = (contains_escape a \<or> contains_escape b)"
| "contains_escape (EscapeOp I a) = True"

primrec contains_everywhere :: "Expr \<Rightarrow> bool" where
  "contains_everywhere (Constant b) = False"
| "contains_everywhere (Identifier n) = False"
| "contains_everywhere (NotOp a) = contains_everywhere a"
| "contains_everywhere (AndOp a b) = (contains_everywhere a \<or> contains_everywhere b)"
| "contains_everywhere (OrOp a b) = (contains_everywhere a \<or> contains_everywhere b)"
| "contains_everywhere (NextOp n a) = contains_everywhere a"
| "contains_everywhere (EventuallyOp I a) = contains_everywhere a"
| "contains_everywhere (GloballyOp I a) = contains_everywhere a"
| "contains_everywhere (UntilOp a I b) = (contains_everywhere a \<or> contains_everywhere b)"
| "contains_everywhere (SomewhereOp I a) = contains_everywhere a"
| "contains_everywhere (EverywhereOp I a) = True"
| "contains_everywhere (ReachOp a I b) = (contains_everywhere a \<or> contains_everywhere b)"
| "contains_everywhere (EscapeOp I a) = contains_everywhere a"

section \<open>Specification and proof notions for the path enumerator\<close>



text \<open>Simple paths of a graph, as the lists of nodes after the source.\<close>

definition attr_weight :: "string \<Rightarrow> (string \<times> real) list \<Rightarrow> real" where
  "attr_weight attr d = (case map_of d attr of None \<Rightarrow> 1 | Some w \<Rightarrow> w)"

definition edge_weight :: "Graph \<Rightarrow> string \<Rightarrow> Location \<Rightarrow> Location \<Rightarrow> real" where
  "edge_weight G attr u v = (case map_of (adj G u) v of None \<Rightarrow> 1 | Some d \<Rightarrow> attr_weight attr d)"

fun is_path :: "Graph \<Rightarrow> Location \<Rightarrow> Location list \<Rightarrow> bool" where
  "is_path G u [] = True"
| "is_path G u (v # vs) = (v \<in> fst ` set (adj G u) \<and> is_path G v vs)"

fun path_weight :: "Graph \<Rightarrow> string \<Rightarrow> Location \<Rightarrow> Location list \<Rightarrow> real" where
  "path_weight G attr u [] = 0"
| "path_weight G attr u (v # vs) = edge_weight G attr u v + path_weight G attr v vs"

definition simple_reach_paths :: "Graph \<Rightarrow> Location \<Rightarrow> real \<Rightarrow> bound \<Rightarrow> string \<Rightarrow> Location list set" where
  "simple_reach_paths G loc d1 d2 attr =
     {vs. distinct (loc # vs) \<and> is_path G loc vs
          \<and> d1 \<le> path_weight G attr loc vs \<and> le_bound (path_weight G attr loc vs) d2}"



text \<open>The paths of \<open>simple_reach_paths\<close> that extend \<open>vs\<close> by a node of \<open>X\<close> and then further.\<close>

definition ext_paths ::
  "Graph \<Rightarrow> Location \<Rightarrow> real \<Rightarrow> bound \<Rightarrow> string \<Rightarrow> Location list \<Rightarrow> Location set
    \<Rightarrow> Location list set" where
  "ext_paths G loc d1 d2 attr vs X =
     {p \<in> simple_reach_paths G loc d1 d2 attr. \<exists>x rest. p = vs @ x # rest \<and> x \<in> X}"






section \<open>Notions for the two evaluation orders\<close>

text \<open>
  The names of the states of an automaton: the variables of the polynomial manager
  that stand for them.
\<close>

definition state_names :: "StrelAutomaton \<Rightarrow> vname set" where
  "state_names A = make_q_str A ` set (states A)"

text \<open>
  Every state is found again from its name, different states have different names, and
  \<^verbatim>\<open>const_mapping\<close> maps every state to the variable of its name.
\<close>

definition well_named :: "StrelAutomaton \<Rightarrow> bool" where
  "well_named A =
     ((\<forall>q \<in> set (states A). map_of (aut_var_node_map A) (make_q_str A q) = Some q)
      \<and> inj_on (make_q_str A) (set (states A))
      \<and> (\<forall>q p. (q, p) \<in> set (const_mapping (aut_transitions A)) \<longrightarrow> p = PVar (make_q_str A q)))"

text \<open>
  A cost table has exactly one entry per state name.
\<close>

definition covers :: "StrelAutomaton \<Rightarrow> (vname \<times> bool) list \<Rightarrow> bool" where
  "covers A C = (fst ` set C = state_names A)"

text \<open>
  The same naming discipline on the tables of the compiler while it runs.
\<close>

definition named :: "ExprMapper \<Rightarrow> bool" where
  "named m =
     ((\<forall>q p. (q, p) \<in> set (const_mapping m) \<longrightarrow> p = PVar (str_expr m (fst q), snd q))
      \<and> (\<forall>v q. (v, q) \<in> set (var_node_map m) \<longrightarrow> v = (str_expr m (fst q), snd q))
      \<and> (\<forall>q \<in> fst ` set (const_mapping m). (str_expr m (fst q), snd q) \<in> fst ` set (var_node_map m)))"

text \<open>
  The formulas an automaton holds a name for.
\<close>

definition named_exprs :: "StrelAutomaton \<Rightarrow> Expr set" where
  "named_exprs A = fst ` (snd ` set (aut_var_node_map A) \<union> set (states A))"

text \<open>
  A naming function for the examples: it stands for Python's \<^verbatim>\<open>str\<close> on the formulas that
  occur there and gives each of them a name of its own.
\<close>

definition example_str :: "Expr \<Rightarrow> string" where
  "example_str e =
     (case e of
        Identifier n \<Rightarrow> n
      | NextOp s a \<Rightarrow> (if s = Some 1 then ''X1'' else ''X2'')
      | EventuallyOp i a \<Rightarrow>
          (if i = Some (TimeInterval (Some 0) (Some 0)) then ''F00'' else ''F22'')
      | _ \<Rightarrow> ''?'')"

declare visit.simps [simp del]

lemma already_visited_False [simp]: "already_visited phi m = False"
  by (auto simp: already_visited_def)

lemma map_of_setdefault:
  "map_of (setdefault k v d) k' =
     (case map_of d k' of Some x \<Rightarrow> Some x | None \<Rightarrow> if k' = k then Some v else None)"
  by (auto simp: setdefault_def map_add_def split: option.splits)

lemma map_of_fold_setdefault:
  "map_of (fold (\<lambda>x. setdefault (f x) (g x)) xs d) k =
     (case map_of d k of Some v \<Rightarrow> Some v | None \<Rightarrow> map_of (map (\<lambda>x. (f x, g x)) xs) k)"
  by (induction xs arbitrary: d) (auto simp: map_of_setdefault split: option.splits)

lemma keys_setdefault: "fst ` set (setdefault k v d) = insert k (fst ` set d)"
proof -
  have "dom (map_of (setdefault k v d)) = insert k (dom (map_of d))"
    by (auto simp: map_of_setdefault dom_def split: option.splits if_splits)
  then show ?thesis by (simp add: dom_map_of_conv_image_fst)
qed

lemma keys_fold_setdefault:
  "fst ` set (fold (\<lambda>x. setdefault (f x) (g x)) xs d) = f ` set xs \<union> fst ` set d"
  by (induction xs arbitrary: d) (auto simp: keys_setdefault)

lemma add_transition_fold:
  "fold (\<lambda>loc m. m\<lparr> declared := declared m @ [(str_expr m phi, loc)],
                    const_mapping := setdefault (phi, loc) (PVar (str_expr m phi, loc)) (const_mapping m),
                    var_node_map := setdefault (str_expr m phi, loc) (phi, loc) (var_node_map m),
                    transitions := setdefault (phi, loc) (tr, loc) (transitions m) \<rparr>) ls m
   = m\<lparr> declared := declared m @ map (\<lambda>loc. (str_expr m phi, loc)) ls,
        const_mapping := fold (\<lambda>loc. setdefault (phi, loc) (PVar (str_expr m phi, loc))) ls (const_mapping m),
        var_node_map := fold (\<lambda>loc. setdefault (str_expr m phi, loc) (phi, loc)) ls (var_node_map m),
        transitions := fold (\<lambda>loc. setdefault (phi, loc) (tr, loc)) ls (transitions m) \<rparr>"
  by (induction ls arbitrary: m) auto

lemma add_transition_eq:
  "add_transition phi tr m =
     m\<lparr> declared := declared m @ map (\<lambda>loc. (str_expr m phi, loc)) [0..<max_locs m],
        const_mapping := fold (\<lambda>loc. setdefault (phi, loc) (PVar (str_expr m phi, loc))) [0..<max_locs m] (const_mapping m),
        var_node_map := fold (\<lambda>loc. setdefault (str_expr m phi, loc) (phi, loc)) [0..<max_locs m] (var_node_map m),
        transitions := fold (\<lambda>loc. setdefault (phi, loc) (tr, loc)) [0..<max_locs m] (transitions m) \<rparr>"
  unfolding add_transition_def by (rule add_transition_fold)

lemma add_expr_alias_fold:
  "fold (\<lambda>loc m. m\<lparr> aliases := setdefault phi expr (aliases m),
                    var_node_map := setdefault (str_expr m phi, loc) (phi, loc) (var_node_map m) \<rparr>) ls m
   = m\<lparr> aliases := fold (\<lambda>loc. setdefault phi expr) ls (aliases m),
        var_node_map := fold (\<lambda>loc. setdefault (str_expr m phi, loc) (phi, loc)) ls (var_node_map m) \<rparr>"
  by (induction ls arbitrary: m) auto

lemma add_expr_alias_eq:
  "add_expr_alias phi expr m =
     m\<lparr> aliases := fold (\<lambda>loc. setdefault phi expr) [0..<max_locs m] (aliases m),
        var_node_map := fold (\<lambda>loc. setdefault (str_expr m phi, loc) (phi, loc)) [0..<max_locs m] (var_node_map m) \<rparr>"
  unfolding add_expr_alias_def by (rule add_expr_alias_fold)


lemma add_transition_dist_attr [simp]: "dist_attr (add_transition phi tr m) = dist_attr m"
  and add_transition_max_locs [simp]: "max_locs (add_transition phi tr m) = max_locs m"
  and add_transition_str_expr [simp]: "str_expr (add_transition phi tr m) = str_expr m"
  and add_transition_aliases [simp]: "aliases (add_transition phi tr m) = aliases m"
  and add_transition_label_fn [simp]: "label_fn (add_transition phi tr m) = label_fn m"
  by (simp_all add: add_transition_eq)

lemma add_expr_alias_fields [simp]:
  "dist_attr (add_expr_alias phi e m) = dist_attr m"
  "max_locs (add_expr_alias phi e m) = max_locs m"
  "str_expr (add_expr_alias phi e m) = str_expr m"
  "label_fn (add_expr_alias phi e m) = label_fn m"
  "transitions (add_expr_alias phi e m) = transitions m"
  "const_mapping (add_expr_alias phi e m) = const_mapping m"
  "declared (add_expr_alias phi e m) = declared m"
  by (simp_all add: add_expr_alias_eq)

lemma visit_Constant: "visit (Constant b) m = Inr m"
  by (simp add: visit.simps[of "Constant b"])

lemma visit_Identifier: "visit (Identifier n) m = Inr (add_transition (Identifier n) (TLabel (Identifier n)) m)"
  by (simp add: visit.simps[of "Identifier n"])

lemma visit_NotOp:
  "visit (NotOp arg) m =
     (case visit arg m of Inl e \<Rightarrow> Inl e
      | Inr m1 \<Rightarrow> Inr (add_transition (NotOp arg) (TNegate arg) m1))"
  by (simp add: visit.simps[of "NotOp arg"])

lemma visit_AndOp:
  "visit (AndOp lhs rhs) m =
     (case visit lhs m of Inl e \<Rightarrow> Inl e
      | Inr m1 \<Rightarrow>
     (case visit rhs m1 of Inl e \<Rightarrow> Inl e
      | Inr m2 \<Rightarrow> Inr (add_transition (AndOp lhs rhs) (TTimes lhs rhs) m2)))"
  by (simp add: visit.simps[of "AndOp lhs rhs"])

lemma visit_OrOp:
  "visit (OrOp lhs rhs) m =
     (case visit lhs m of Inl e \<Rightarrow> Inl e
      | Inr m1 \<Rightarrow>
     (case visit rhs m1 of Inl e \<Rightarrow> Inl e
      | Inr m2 \<Rightarrow> Inr (add_transition (OrOp lhs rhs) (TPlus lhs rhs) m2)))"
  by (simp add: visit.simps[of "OrOp lhs rhs"])

lemma visit_EverywhereOp:
  "visit (EverywhereOp I arg) m =
     (case visit arg m of Inl e \<Rightarrow> Inl e
      | Inr m1 \<Rightarrow>
     (case visit (NotOp (SomewhereOp I (NotOp arg))) m1 of Inl e \<Rightarrow> Inl e
      | Inr m2 \<Rightarrow> Inl (NotImplementedError [])))"
  by (simp add: visit.simps[of "EverywhereOp I arg"] Let_def split: sum.splits)

lemma visit_SomewhereOp:
  "visit (SomewhereOp I arg) m =
     (case visit arg m of Inl e \<Rightarrow> Inl e
      | Inr m1 \<Rightarrow>
     (case visit (ReachOp (Constant True) I arg) m1 of Inl e \<Rightarrow> Inl e
      | Inr m2 \<Rightarrow> Inr (add_expr_alias (SomewhereOp I arg) (ReachOp (Constant True) I arg) m2)))"
  by (simp add: visit.simps[of "SomewhereOp I arg"])

lemma visit_EscapeOp:
  "visit (EscapeOp I arg) m =
     (case visit arg m of Inl e \<Rightarrow> Inl e
      | Inr m1 \<Rightarrow> Inl (NotImplementedError ''We currently don't support escape''))"
  by (simp add: visit.simps[of "EscapeOp I arg"])

lemma visit_ReachOp:
  "visit (ReachOp lhs I rhs) m =
     (case visit lhs m of Inl e \<Rightarrow> Inl e
      | Inr m1 \<Rightarrow>
     (case visit rhs m1 of Inl e \<Rightarrow> Inl e
      | Inr m2 \<Rightarrow> Inr (expand_add_reach lhs I rhs m2)))"
  by (simp add: visit.simps[of "ReachOp lhs I rhs"])

lemma visit_NextOp:
  "visit (NextOp steps arg) m =
     (case visit arg m of Inl e \<Rightarrow> Inl e
      | Inr m1 \<Rightarrow> Inr (expand_add_next steps arg m1))"
  by (simp add: visit.simps[of "NextOp steps arg"])

lemma visit_GloballyOp:
  "visit (GloballyOp I arg) m =
     (case visit arg m of Inl e \<Rightarrow> Inl e
      | Inr m1 \<Rightarrow>
     (case visit (NotOp (EventuallyOp I (NotOp arg))) m1 of Inl e \<Rightarrow> Inl e
      | Inr m2 \<Rightarrow> Inr (add_expr_alias (GloballyOp I arg) (NotOp (EventuallyOp I (NotOp arg))) m2)))"
  by (simp add: visit.simps[of "GloballyOp I arg"])

lemma visit_EventuallyOp:
  "visit (EventuallyOp I arg) m =
     (case visit arg m of Inl e \<Rightarrow> Inl e
      | Inr m1 \<Rightarrow>
     (case match_eventually I of
        EvUntimed \<Rightarrow> Inr (add_transition (EventuallyOp I arg) (TCallPlusVar arg (EventuallyOp I arg)) m1)
      | EvUpTo t2 \<Rightarrow> Inr (expand_eventually_upto t2 arg m1)
      | EvFrom t1 \<Rightarrow>
          (case visit (NextOp (Some t1) (EventuallyOp None arg)) m1 of Inl e \<Rightarrow> Inl e
           | Inr m2 \<Rightarrow>
               Inr (add_expr_alias (EventuallyOp I arg) (NextOp (Some t1) (EventuallyOp None arg)) m2))
      | EvWindow t1 t2 \<Rightarrow>
          (case visit (NextOp (Some t1)
                         (EventuallyOp (Some (TimeInterval (Some 0) (Some (t2 - t1)))) arg)) m1
           of Inl e \<Rightarrow> Inl e
           | Inr m2 \<Rightarrow>
               Inr (add_expr_alias (EventuallyOp I arg)
                      (NextOp (Some t1)
                         (EventuallyOp (Some (TimeInterval (Some 0) (Some (t2 - t1)))) arg)) m2))))"
  by (simp add: visit.simps[of "EventuallyOp I arg"])

lemma visit_UntilOp:
  "visit (UntilOp lhs I rhs) m =
     (case visit lhs m of Inl e \<Rightarrow> Inl e
      | Inr m1 \<Rightarrow>
     (case visit rhs m1 of Inl e \<Rightarrow> Inl e
      | Inr m2 \<Rightarrow>
     (case match_until I of
        UnUntimed \<Rightarrow> Inr (add_transition (UntilOp lhs I rhs) (TUntilStep lhs rhs (UntilOp lhs I rhs)) m2)
      | UnFrom t1 \<Rightarrow>
          (case visit (NotOp (EventuallyOp (Some (TimeInterval (Some 0) (Some t1)))
                                (NotOp (UntilOp lhs None rhs)))) m2
           of Inl e \<Rightarrow> Inl e
           | Inr m3 \<Rightarrow>
               Inr (add_expr_alias (UntilOp lhs I rhs)
                      (NotOp (EventuallyOp (Some (TimeInterval (Some 0) (Some t1)))
                                (NotOp (UntilOp lhs None rhs)))) m3))
      | UnWindow t1 \<Rightarrow>
          (case visit (AndOp (EventuallyOp I rhs)
                         (UntilOp lhs (Some (TimeInterval (Some t1) None)) rhs)) m2
           of Inl e \<Rightarrow> Inl e
           | Inr m3 \<Rightarrow>
               Inr (add_expr_alias (UntilOp lhs I rhs)
                      (AndOp (EventuallyOp I rhs)
                         (UntilOp lhs (Some (TimeInterval (Some t1) None)) rhs)) m3))
      | UnNoMatch \<Rightarrow> Inr m2)))"
  by (simp add: visit.simps[of "UntilOp lhs I rhs"])

lemmas visit_rules = visit_Constant visit_Identifier visit_NotOp visit_AndOp visit_OrOp
  visit_EverywhereOp visit_SomewhereOp visit_EscapeOp visit_ReachOp visit_NextOp
  visit_GloballyOp visit_EventuallyOp visit_UntilOp


lemma fold_next_preserves:
  assumes step: "\<And>psi m. P m \<Longrightarrow> installable psi \<Longrightarrow> P (add_transition psi (closure_of (dist_attr m) psi) m)"
  shows "\<forall>i \<in> set js. 2 \<le> i \<Longrightarrow> P m \<Longrightarrow>
    P (fold (\<lambda>i. add_transition (NextOp (Some i) arg) (TVarOf (NextOp (Some (i - 1)) arg))) js m)"
proof (induction js arbitrary: m)
  case Nil
  then show ?case by simp
next
  case (Cons j js)
  have "P (add_transition (NextOp (Some j) arg) (closure_of (dist_attr m) (NextOp (Some j) arg)) m)"
    using Cons.prems by (intro step) auto
  then have "P (add_transition (NextOp (Some j) arg) (TVarOf (NextOp (Some (j - 1)) arg)) m)"
    using Cons.prems by simp
  then show ?case using Cons by simp
qed

lemma expand_add_next_preserves:
  assumes step: "\<And>psi m. P m \<Longrightarrow> installable psi \<Longrightarrow> P (add_transition psi (closure_of (dist_attr m) psi) m)"
    and "P m"
  shows "P (expand_add_next steps arg m)"
proof -
  let ?n = "case steps of None \<Rightarrow> 1 | Some s \<Rightarrow> s"
  let ?m1 = "fold (\<lambda>i. add_transition (NextOp (Some i) arg) (TVarOf (NextOp (Some (i - 1)) arg))) (rev [2..?n]) m"
  have "P ?m1" using assms(2) by (intro fold_next_preserves[of P, OF step]) auto
  then have "P (add_transition (NextOp (Some 1) arg) (closure_of (dist_attr ?m1) (NextOp (Some 1) arg)) ?m1)"
    by (intro step) auto
  then show ?thesis by (simp add: expand_add_next_def Let_def)
qed

lemma fold_upto_preserves:
  assumes step: "\<And>psi m. P m \<Longrightarrow> installable psi \<Longrightarrow> P (add_transition psi (closure_of (dist_attr m) psi) m)"
  shows "\<forall>i \<in> set js. 1 \<le> i \<Longrightarrow> P m \<Longrightarrow>
    P (fold (\<lambda>i. add_transition
                  (EventuallyOp (Some (TimeInterval (Some 0) (Some i))) arg)
                  (TCallPlusVar arg
                     (if i > 1 then EventuallyOp (Some (TimeInterval (Some 0) (Some (i - 1)))) arg
                      else arg))) js m)"
proof (induction js arbitrary: m)
  case Nil
  then show ?case by simp
next
  case (Cons j js)
  let ?psi = "EventuallyOp (Some (TimeInterval (Some 0) (Some j))) arg"
  have "P (add_transition ?psi (closure_of (dist_attr m) ?psi) m)"
    using Cons.prems by (intro step) auto
  then have "P (add_transition ?psi (TCallPlusVar arg
                     (if j > 1 then EventuallyOp (Some (TimeInterval (Some 0) (Some (j - 1)))) arg
                      else arg)) m)"
    by simp
  then show ?case using Cons by simp
qed

lemma expand_eventually_upto_preserves:
  assumes step: "\<And>psi m. P m \<Longrightarrow> installable psi \<Longrightarrow> P (add_transition psi (closure_of (dist_attr m) psi) m)"
    and "P m"
  shows "P (expand_eventually_upto t2 arg m)"
  unfolding expand_eventually_upto_def using assms(2) by (intro fold_upto_preserves[of P, OF step]) auto

lemma visit_preserves:
  assumes step: "\<And>psi m. P m \<Longrightarrow> installable psi \<Longrightarrow> P (add_transition psi (closure_of (dist_attr m) psi) m)"
    and al: "\<And>psi e m. P m \<Longrightarrow> P (add_expr_alias psi e m)"
  shows "visit phi m = Inr m' \<Longrightarrow> P m \<Longrightarrow> P m'"
proof (induction phi arbitrary: m m' rule: measure_induct_rule[of weight])
  case (less phi)
  note IH = less.IH
  note nx = expand_add_next_preserves[of P, OF step]
  note up = expand_eventually_upto_preserves[of P, OF step]
  show ?case
  proof (cases phi)
    case (Constant b)
    then show ?thesis using less.prems by (simp add: visit_Constant)
  next
    case (Identifier n)
    then show ?thesis using less.prems step[of m "Identifier n"] by (auto simp: visit_Identifier)
  next
    case (NotOp a)
    then obtain m1 where 1: "visit a m = Inr m1" and 2: "m' = add_transition phi (TNegate a) m1"
      using less.prems by (auto simp: visit_NotOp split: sum.splits)
    have "P m1" using IH[of a m m1] 1 less.prems NotOp by simp
    then show ?thesis using step[of m1 phi] 2 NotOp by simp
  next
    case (AndOp l r)
    then obtain m1 m2 where 1: "visit l m = Inr m1" "visit r m1 = Inr m2"
      and 2: "m' = add_transition phi (TTimes l r) m2"
      using less.prems by (auto simp: visit_AndOp split: sum.splits)
    have "P m1" using IH[of l m m1] 1 less.prems AndOp by simp
    then have "P m2" using IH[of r m1 m2] 1 AndOp by simp
    then show ?thesis using step[of m2 phi] 2 AndOp by simp
  next
    case (OrOp l r)
    then obtain m1 m2 where 1: "visit l m = Inr m1" "visit r m1 = Inr m2"
      and 2: "m' = add_transition phi (TPlus l r) m2"
      using less.prems by (auto simp: visit_OrOp split: sum.splits)
    have "P m1" using IH[of l m m1] 1 less.prems OrOp by simp
    then have "P m2" using IH[of r m1 m2] 1 OrOp by simp
    then show ?thesis using step[of m2 phi] 2 OrOp by simp
  next
    case (NextOp s a)
    then obtain m1 where 1: "visit a m = Inr m1" and 2: "m' = expand_add_next s a m1"
      using less.prems by (auto simp: visit_NextOp split: sum.splits)
    have "P m1" using IH[of a m m1] 1 less.prems NextOp by simp
    then show ?thesis using nx 2 by simp
  next
    case (EventuallyOp I a)
    then obtain m1 where 1: "visit a m = Inr m1"
      using less.prems by (auto simp: visit_EventuallyOp split: sum.splits)
    have P1: "P m1" using IH[of a m m1] 1 less.prems EventuallyOp by (simp split: ev_case.splits)
    show ?thesis
    proof (cases "match_eventually I")
      case EvUntimed
      then have "m' = add_transition phi (TCallPlusVar a phi) m1"
        using less.prems 1 EventuallyOp by (simp add: visit_EventuallyOp)
      then show ?thesis using step[of m1 phi] P1 EvUntimed EventuallyOp by simp
    next
      case (EvUpTo t2)
      then have "m' = expand_eventually_upto t2 a m1"
        using less.prems 1 EventuallyOp by (simp add: visit_EventuallyOp)
      then show ?thesis using up P1 by simp
    next
      case (EvFrom t1)
      let ?e = "NextOp (Some t1) (EventuallyOp None a)"
      obtain m2 where 2: "visit ?e m1 = Inr m2" and 3: "m' = add_expr_alias phi ?e m2"
        using less.prems 1 EventuallyOp EvFrom by (auto simp: visit_EventuallyOp split: sum.splits)
      have "P m2" using IH[of ?e m1 m2] 2 P1 EventuallyOp EvFrom by simp
      then show ?thesis using al 3 by simp
    next
      case (EvWindow t1 t2)
      let ?e = "NextOp (Some t1) (EventuallyOp (Some (TimeInterval (Some 0) (Some (t2 - t1)))) a)"
      obtain m2 where 2: "visit ?e m1 = Inr m2" and 3: "m' = add_expr_alias phi ?e m2"
        using less.prems 1 EventuallyOp EvWindow by (auto simp: visit_EventuallyOp split: sum.splits)
      have "P m2" using IH[of ?e m1 m2] 2 P1 EventuallyOp EvWindow by simp
      then show ?thesis using al 3 by simp
    qed
  next
    case (GloballyOp I a)
    let ?e = "NotOp (EventuallyOp I (NotOp a))"
    obtain m1 m2 where 1: "visit a m = Inr m1" "visit ?e m1 = Inr m2"
      and 2: "m' = add_expr_alias phi ?e m2"
      using less.prems GloballyOp by (auto simp: visit_GloballyOp split: sum.splits)
    have "P m1" using IH[of a m m1] 1 less.prems GloballyOp by simp
    then have "P m2" using IH[of ?e m1 m2] 1 GloballyOp by (simp split: ev_case.splits)
    then show ?thesis using al 2 by simp
  next
    case (UntilOp l I r)
    then obtain m1 m2 where 1: "visit l m = Inr m1" "visit r m1 = Inr m2"
      using less.prems by (auto simp: visit_UntilOp split: sum.splits)
    have "P m1" using IH[of l m m1] 1 less.prems UntilOp by (simp split: un_case.splits)
    then have P2: "P m2" using IH[of r m1 m2] 1 UntilOp by (simp split: un_case.splits)
    show ?thesis
    proof (cases "match_until I")
      case UnUntimed
      then have "m' = add_transition phi (TUntilStep l r phi) m2"
        using less.prems 1 UntilOp by (simp add: visit_UntilOp)
      then show ?thesis using step[of m2 phi] P2 UnUntimed UntilOp by simp
    next
      case (UnFrom t1)
      let ?e = "NotOp (EventuallyOp (Some (TimeInterval (Some 0) (Some t1))) (NotOp (UntilOp l None r)))"
      obtain m3 where 2: "visit ?e m2 = Inr m3" and 3: "m' = add_expr_alias phi ?e m3"
        using less.prems 1 UntilOp UnFrom by (auto simp: visit_UntilOp split: sum.splits)
      have "P m3" using IH[of ?e m2 m3] 2 P2 UntilOp UnFrom by simp
      then show ?thesis using al 3 by simp
    next
      case (UnWindow t1)
      let ?e = "AndOp (EventuallyOp I r) (UntilOp l (Some (TimeInterval (Some t1) None)) r)"
      obtain m3 where 2: "visit ?e m2 = Inr m3" and 3: "m' = add_expr_alias phi ?e m3"
        using less.prems 1 UntilOp UnWindow by (auto simp: visit_UntilOp split: sum.splits)
      have "weight ?e < weight phi"
        using UntilOp UnWindow by (simp split: ev_case.splits un_case.splits)
      then have "P m3" using IH[of ?e m2 m3] 2 P2 by simp
      then show ?thesis using al 3 by simp
    next
      case UnNoMatch
      then show ?thesis using less.prems 1 UntilOp P2 by (simp add: visit_UntilOp)
    qed
  next
    case (SomewhereOp I a)
    let ?e = "ReachOp (Constant True) I a"
    obtain m1 m2 where 1: "visit a m = Inr m1" "visit ?e m1 = Inr m2"
      and 2: "m' = add_expr_alias phi ?e m2"
      using less.prems SomewhereOp by (auto simp: visit_SomewhereOp split: sum.splits)
    have "P m1" using IH[of a m m1] 1 less.prems SomewhereOp by simp
    then have "P m2" using IH[of ?e m1 m2] 1 SomewhereOp by simp
    then show ?thesis using al 2 by simp
  next
    case (EverywhereOp I a)
    then show ?thesis using less.prems by (simp add: visit_EverywhereOp split: sum.splits)
  next
    case (ReachOp l I r)
    then obtain m1 m2 where 1: "visit l m = Inr m1" "visit r m1 = Inr m2"
      and 2: "m' = expand_add_reach l I r m2"
      using less.prems by (auto simp: visit_ReachOp split: sum.splits)
    have "P m1" using IH[of l m m1] 1 less.prems ReachOp by simp
    then have "P m2" using IH[of r m1 m2] 1 ReachOp by simp
    then show ?thesis using step[of m2 phi] 2 ReachOp by (simp add: expand_add_reach_def)
  next
    case (EscapeOp I a)
    then show ?thesis using less.prems by (simp add: visit_EscapeOp split: sum.splits)
  qed
qed


lemma add_transition_keys:
  "fst ` set (transitions (add_transition phi tr m)) =
     (\<lambda>loc. (phi, loc)) ` {0..<max_locs m} \<union> fst ` set (transitions m)"
  "fst ` set (const_mapping (add_transition phi tr m)) =
     (\<lambda>loc. (phi, loc)) ` {0..<max_locs m} \<union> fst ` set (const_mapping m)"
  by (simp_all add: add_transition_eq keys_fold_setdefault)

lemma add_transition_lookup:
  "map_of (transitions (add_transition phi tr m)) q =
     (case map_of (transitions m) q of
        Some v \<Rightarrow> Some v
      | None \<Rightarrow> if fst q = phi \<and> snd q < max_locs m then Some (tr, snd q) else None)"
proof -
  have "map_of (map (\<lambda>loc. ((phi, loc), (tr, loc))) ls) q =
          (if fst q = phi \<and> snd q \<in> set ls then Some (tr, snd q) else None)" for ls
    by (induction ls) (auto simp: prod_eq_iff)
  then show ?thesis
    by (simp add: add_transition_eq map_of_fold_setdefault split: option.splits)
qed

lemma canonicalD:
  "canonical m \<Longrightarrow> map_of (transitions m) (psi, l') = Some (tr, l)
     \<Longrightarrow> l = l' \<and> tr = closure_of (dist_attr m) psi \<and> installable psi"
  unfolding canonical_def by (metis fst_conv snd_conv)

lemma keys_agree_visit: "visit phi m = Inr m' \<Longrightarrow> keys_agree m \<Longrightarrow> keys_agree m'"
  by (erule visit_preserves[of keys_agree, rotated 2])
     (simp_all add: keys_agree_def add_transition_keys)

lemma canonical_visit: "visit phi m = Inr m' \<Longrightarrow> canonical m \<Longrightarrow> canonical m'"
  by (erule visit_preserves[of canonical, rotated 2])
     (auto simp: canonical_def add_transition_lookup split: option.splits if_splits)

lemma visit_fields:
  assumes "visit phi m = Inr m'"
  shows "dist_attr m' = dist_attr m \<and> max_locs m' = max_locs m \<and> str_expr m' = str_expr m
          \<and> label_fn m' = label_fn m"
  using assms
  by (rule visit_preserves[of "\<lambda>x. dist_attr x = dist_attr m \<and> max_locs x = max_locs m
          \<and> str_expr x = str_expr m \<and> label_fn x = label_fn m", rotated 2]) simp_all

lemma init_facts:
  assumes "ExprMapper_init str lbl n attr = Inr m0"
  shows "keys_agree m0" "canonical m0" "max_locs m0 = n" "0 < n"
    "dist_attr m0 = (case attr of None \<Rightarrow> ''weight'' | Some a \<Rightarrow> if a = [] then ''weight'' else a)"
    "transitions m0 = []" "const_mapping m0 = []" "str_expr m0 = str"
  using assms by (auto simp: ExprMapper_init_def keys_agree_def canonical_def split: if_splits)


lemma bind_isl: "isl r \<Longrightarrow> isl (case r of Inl e \<Rightarrow> Inl e | Inr x \<Rightarrow> f x)"
  by (cases r) auto

lemma bind_isl2: "(\<And>x. r = Inr x \<Longrightarrow> isl (f x)) \<Longrightarrow> isl (case r of Inl e \<Rightarrow> Inl e | Inr x \<Rightarrow> f x)"
  by (cases r) auto

lemma bind_isl_either:
  "isl r \<or> (\<forall>x. isl (f x)) \<Longrightarrow> isl (case r of Inl e \<Rightarrow> Inl e | Inr x \<Rightarrow> f x)"
  by (cases r) auto

lemma visit_escape_fails: "contains_escape phi \<Longrightarrow> isl (visit phi m)"
proof (induction phi arbitrary: m)
  case (NotOp a)
  then show ?case by (simp add: visit_NotOp bind_isl)
next
  case (AndOp l r)
  then show ?case unfolding visit_AndOp
    by (intro bind_isl_either) (auto intro: bind_isl)
next
  case (OrOp l r)
  then show ?case unfolding visit_OrOp
    by (intro bind_isl_either) (auto intro: bind_isl)
next
  case (NextOp s a)
  then show ?case by (simp add: visit_NextOp bind_isl)
next
  case (EventuallyOp I a)
  then show ?case by (simp add: visit_EventuallyOp bind_isl)
next
  case (GloballyOp I a)
  then show ?case by (simp add: visit_GloballyOp bind_isl)
next
  case (UntilOp l I r)
  then show ?case unfolding visit_UntilOp
    by (intro bind_isl_either) (auto intro: bind_isl)
next
  case (SomewhereOp I a)
  then show ?case by (simp add: visit_SomewhereOp bind_isl)
next
  case (EverywhereOp I a)
  then show ?case by (simp add: visit_EverywhereOp bind_isl)
next
  case (ReachOp l I r)
  then show ?case unfolding visit_ReachOp
    by (intro bind_isl_either) (auto intro: bind_isl)
next
  case (EscapeOp I a)
  then show ?case by (simp add: visit_EscapeOp split: sum.splits)
qed simp_all

lemma visit_error_kind:
  "visit phi m = Inl e \<Longrightarrow>
     e = NotImplementedError ''We currently don't support escape''
     \<or> (e = NotImplementedError [] \<and> contains_everywhere phi)"
proof (induction phi arbitrary: m e rule: measure_induct_rule[of weight])
  case (less phi)
  note IH = less.IH
  show ?case
  proof (cases phi)
    case (Constant b)
    then show ?thesis using less.prems by (simp add: visit_Constant)
  next
    case (Identifier n)
    then show ?thesis using less.prems by (simp add: visit_Identifier)
  next
    case (NotOp a)
    then show ?thesis using less.prems IH[of a]
      by (auto simp: visit_NotOp split: sum.splits)
  next
    case (AndOp l r)
    then show ?thesis using less.prems IH[of l] IH[of r]
      by (auto simp: visit_AndOp split: sum.splits)
  next
    case (OrOp l r)
    then show ?thesis using less.prems IH[of l] IH[of r]
      by (auto simp: visit_OrOp split: sum.splits)
  next
    case (NextOp s a)
    then show ?thesis using less.prems IH[of a]
      by (auto simp: visit_NextOp split: sum.splits)
  next
    case (EventuallyOp I a)
    have w: "weight a < weight phi" using EventuallyOp by (simp split: ev_case.splits)
    show ?thesis
    proof (cases "visit a m")
      case (Inl e')
      then show ?thesis using less.prems IH[OF w Inl] EventuallyOp by (auto simp: visit_EventuallyOp)
    next
      case (Inr m1)
      show ?thesis
      proof (cases "match_eventually I")
        case (EvFrom t1)
        then show ?thesis
          using less.prems Inr EventuallyOp IH[of "NextOp (Some t1) (EventuallyOp None a)" m1]
          by (auto simp: visit_EventuallyOp split: sum.splits)
      next
        case (EvWindow t1 t2)
        then show ?thesis
          using less.prems Inr EventuallyOp
            IH[of "NextOp (Some t1) (EventuallyOp (Some (TimeInterval (Some 0) (Some (t2 - t1)))) a)" m1]
          by (auto simp: visit_EventuallyOp split: sum.splits)
      qed (use less.prems Inr EventuallyOp in \<open>simp_all add: visit_EventuallyOp\<close>)
    qed
  next
    case (GloballyOp I a)
    then show ?thesis using less.prems IH[of a] IH[of "NotOp (EventuallyOp I (NotOp a))"]
      by (auto simp: visit_GloballyOp split: sum.splits ev_case.splits)
  next
    case (UntilOp l I r)
    have w: "weight l < weight phi" "weight r < weight phi"
      using UntilOp by (simp_all split: un_case.splits)
    show ?thesis
    proof (cases "visit l m")
      case (Inl e')
      then show ?thesis using less.prems IH[OF w(1) Inl] UntilOp by (auto simp: visit_UntilOp)
    next
      case l: (Inr m1)
      show ?thesis
      proof (cases "visit r m1")
        case (Inl e')
        then show ?thesis using less.prems l IH[OF w(2) Inl] UntilOp by (auto simp: visit_UntilOp)
      next
        case r: (Inr m2)
        show ?thesis
        proof (cases "match_until I")
          case (UnFrom t1)
          then show ?thesis
            using less.prems l r UntilOp
              IH[of "NotOp (EventuallyOp (Some (TimeInterval (Some 0) (Some t1))) (NotOp (UntilOp l None r)))" m2]
            by (auto simp: visit_UntilOp split: sum.splits)
        next
          case (UnWindow t1)
          let ?e = "AndOp (EventuallyOp I r) (UntilOp l (Some (TimeInterval (Some t1) None)) r)"
          have "weight ?e < weight phi"
            using UntilOp UnWindow by (simp split: ev_case.splits un_case.splits)
          from IH[OF this, of m2] show ?thesis
            using less.prems l r UntilOp UnWindow
            by (auto simp: visit_UntilOp split: sum.splits)
        qed (use less.prems l r UntilOp in \<open>simp_all add: visit_UntilOp\<close>)
      qed
    qed
  next
    case (SomewhereOp I a)
    then show ?thesis using less.prems IH[of a] IH[of "ReachOp (Constant True) I a"]
      by (auto simp: visit_SomewhereOp split: sum.splits)
  next
    case (EverywhereOp I a)
    then show ?thesis using less.prems IH[of a] IH[of "NotOp (SomewhereOp I (NotOp a))"]
      by (auto simp: visit_EverywhereOp split: sum.splits)
  next
    case (ReachOp l I r)
    then show ?thesis using less.prems IH[of l] IH[of r]
      by (auto simp: visit_ReachOp split: sum.splits)
  next
    case (EscapeOp I a)
    then show ?thesis using less.prems IH[of a]
      by (auto simp: visit_EscapeOp split: sum.splits)
  qed
qed

lemma escape_error_general:
  assumes "contains_escape phi"
  shows "from_strel_expr str phi lbl (Suc n) attr
           = Inl (NotImplementedError ''We currently don't support escape'')
         \<or> (contains_everywhere phi
            \<and> from_strel_expr str phi lbl (Suc n) attr = Inl (NotImplementedError []))"
proof -
  obtain m0 where m0: "ExprMapper_init str lbl (Suc n) attr = Inr m0"
    by (simp add: ExprMapper_init_def)
  obtain e where e: "visit phi m0 = Inl e"
    using visit_escape_fails[OF assms, of m0] by (cases "visit phi m0") auto
  from visit_error_kind[OF e] show ?thesis
    using m0 e by (auto simp: from_strel_expr_def)
qed


lemma table_consistency_aux:
  assumes "ExprMapper_init str lbl n attr = Inr m0" and "visit phi m0 = Inr m"
  shows "set (map fst (transitions m)) = set (map fst (const_mapping m))"
  using keys_agree_visit[OF assms(2) init_facts(1)[OF assms(1)]]
  by (simp add: keys_agree_def)

lemmas eval_compile = from_strel_expr_def make_bool_automaton_def ExprMapper_init_def visit_rules
  expand_add_next_def expand_add_reach_def expand_eventually_upto_def reach_d1_def reach_d2_def
  add_transition_eq add_expr_alias_eq setdefault_def StrelAutomaton_init_def
  Transitions.truncate_def states_def is_accepting_def is_untimed_def

lemma compiled_reach_attr:
  assumes "from_strel_expr str phi lbl n attr = Inr A"
    and "map_of (transitions (aut_transitions A)) q = Some (TCheckReach lhs rhs d1 d2 a, loc)"
  shows "a = (case attr of None \<Rightarrow> ''weight'' | Some x \<Rightarrow> if x = [] then ''weight'' else x)"
proof -
  obtain m0 m where m: "ExprMapper_init str lbl n attr = Inr m0" "visit phi m0 = Inr m"
    and A: "StrelAutomaton_init phi (Transitions.truncate m) (var_node_map m) = Inr A"
    using assms(1) by (auto simp: from_strel_expr_def split: sum.splits)
  have tr: "transitions (aut_transitions A) = transitions m"
    using A by (auto simp: StrelAutomaton_init_def Transitions.truncate_def split: if_splits list.splits)
  have "canonical m" by (rule canonical_visit[OF m(2) init_facts(2)[OF m(1)]])
  then have "TCheckReach lhs rhs d1 d2 a = closure_of (dist_attr m) (fst q)"
    using assms(2) tr canonicalD[of m "fst q" "snd q" "TCheckReach lhs rhs d1 d2 a" loc] by simp
  then have "a = dist_attr m"
    by (cases "fst q") (auto split: option.splits if_splits ev_case.splits)
  then show ?thesis using visit_fields[OF m(2)] init_facts(5)[OF m(1)] by simp
qed

lemma visit_everywhere_fails: "isl (visit (EverywhereOp I arg) m)"
  by (simp add: visit_EverywhereOp split: sum.splits)

section \<open>The claims about the compiler\<close>

text \<open>
  C6 (table consistency). For every formula on which the compile pass succeeds, starting
  from a fresh visitor, the keys \<open>(psi, loc)\<close> of the \<open>transitions\<close> dictionary are
  exactly the keys of the declared-variable dictionary \<open>const_mapping\<close>; the assertion
  that opens \<^verbatim>\<open>StrelAutomaton.__init__\<close> therefore holds.
\<close>

theorem table_consistency:
  assumes "ExprMapper_init str lbl n attr = Inr m0" and "visit phi m0 = Inr m"
  shows "set (map fst (transitions m)) = set (map fst (const_mapping m))"
  using keys_agree_visit[OF assms(2) init_facts(1)[OF assms(1)]]
  by (simp add: keys_agree_def)

text \<open>The hypotheses of C6 hold for the formula \<open>~p\<close> over two locations.\<close>

theorem table_consistency_witness:
  "\<exists>m0 m. ExprMapper_init (\<lambda>_. ''p'') (\<lambda>_ _ _. True) 2 None = Inr m0
     \<and> visit (NotOp (Identifier ''p'')) m0 = Inr m
     \<and> set (map fst (transitions m)) = set (map fst (const_mapping m))
     \<and> set (map fst (transitions m)) \<noteq> {}"
proof -
  obtain m0 where a: "ExprMapper_init (\<lambda>_. ''p'') (\<lambda>_ _ _. True) 2 None = Inr m0"
    by (simp add: ExprMapper_init_def)
  obtain m where b: "visit (NotOp (Identifier ''p'')) m0 = Inr m"
    and c: "m = add_transition (NotOp (Identifier ''p'')) (TNegate (Identifier ''p''))
                  (add_transition (Identifier ''p'') (TLabel (Identifier ''p'')) m0)"
    by (simp add: visit_rules)
  have "max_locs m0 = 2" using a by (auto simp: ExprMapper_init_def)
  then have "set (map fst (transitions m)) \<noteq> {}"
    unfolding c by (simp add: add_transition_keys)
  with table_consistency[OF a b] a b show ?thesis by blast
qed

text \<open>
  C5 (accepting states). After construction, a state \<open>(psi, loc)\<close> of the automaton is in
  \<open>accepting_states\<close> if and only if \<open>psi\<close> is the initial expression, or \<open>psi\<close> is the
  negation of an \<open>EventuallyOp\<close> or of an \<open>UntilOp\<close> whose interval is absent or untimed.
\<close>

theorem accepting_states_iff:
  assumes "from_strel_expr str phi lbl n attr = Inr A" and "(psi, loc) \<in> set (states A)"
  shows "(psi, loc) \<in> set (accepting_states A) \<longleftrightarrow>
           psi = initial_expr A
           \<or> (\<exists>I arg. psi = NotOp (EventuallyOp I arg) \<and> (I = None \<or> (\<exists>i. I = Some i \<and> is_untimed i)))
           \<or> (\<exists>lhs I rhs. psi = NotOp (UntilOp lhs I rhs) \<and> (I = None \<or> (\<exists>i. I = Some i \<and> is_untimed i)))"
proof -
  obtain m0 m where m: "ExprMapper_init str lbl n attr = Inr m0" "visit phi m0 = Inr m"
    and A: "StrelAutomaton_init phi (Transitions.truncate m) (var_node_map m) = Inr A"
    using assms(1) by (auto simp: from_strel_expr_def split: sum.splits)
  have keys: "set (map fst (transitions m)) = set (map fst (const_mapping m))"
    by (rule table_consistency_aux[OF m])
  have acc: "accepting_states A = filter (\<lambda>(expr, loc). is_accepting phi expr) (map fst (transitions m))"
    and st: "states A = map fst (const_mapping m)" and ini: "initial_expr A = phi"
    using A by (auto simp: StrelAutomaton_init_def states_def Transitions.truncate_def
        split: if_splits list.splits)
  have "(psi, loc) \<in> set (map fst (transitions m))" using assms(2) keys st by simp
  then have "(psi, loc) \<in> set (accepting_states A) \<longleftrightarrow> is_accepting phi psi"
    by (auto simp: acc)
  also have "is_accepting phi psi \<longleftrightarrow>
           psi = phi
           \<or> (\<exists>I arg. psi = NotOp (EventuallyOp I arg) \<and> (I = None \<or> (\<exists>i. I = Some i \<and> is_untimed i)))
           \<or> (\<exists>lhs I rhs. psi = NotOp (UntilOp lhs I rhs) \<and> (I = None \<or> (\<exists>i. I = Some i \<and> is_untimed i)))"
    by (auto simp: is_accepting_def split: Expr.splits option.splits)
  finally show ?thesis by (simp add: ini)
qed


text \<open>
  C5 at \<open>~F p\<close> on one location: the initial state is accepting, the state of \<open>p\<close> is not.
\<close>

theorem accepting_states_iff_witness:
  "\<exists>A. from_strel_expr (\<lambda>e. case e of Identifier n \<Rightarrow> n | _ \<Rightarrow> ''phi'')
          (NotOp (EventuallyOp None (Identifier ''p''))) (\<lambda>_ _ _. True) 1 None = Inr A
     \<and> (NotOp (EventuallyOp None (Identifier ''p'')), 0) \<in> set (states A)
     \<and> (NotOp (EventuallyOp None (Identifier ''p'')), 0) \<in> set (accepting_states A)
     \<and> (Identifier ''p'', 0) \<in> set (states A)
     \<and> (Identifier ''p'', 0) \<notin> set (accepting_states A)"
proof -
  let ?str = "\<lambda>e. case e of Identifier n \<Rightarrow> n | _ \<Rightarrow> ''phi''"
  let ?phi = "NotOp (EventuallyOp None (Identifier ''p''))"
  obtain A where a: "from_strel_expr ?str ?phi (\<lambda>_ _ _. True) 1 None = Inr A"
    and b: "(?phi, 0) \<in> set (states A)" and c: "(Identifier ''p'', 0) \<in> set (states A)"
    and d: "initial_expr A = ?phi"
    by (simp add: eval_compile)
  from accepting_states_iff[OF a b] accepting_states_iff[OF a c] a b c d
  show ?thesis by auto
qed

text \<open>
  C7 as stated fails: compiling \<open>NextOp(0, p)\<close> raises nothing and returns an automaton,
  whose states are those of \<open>p\<close> and of \<open>NextOp(1, p)\<close>.
\<close>

theorem next_zero_compiles:
  "\<exists>A. from_strel_expr (\<lambda>e. case e of Identifier n \<Rightarrow> n | _ \<Rightarrow> ''X p'')
          (NextOp (Some 0) (Identifier ''p'')) (\<lambda>_ _ _. True) 1 None = Inr A
     \<and> states A = [(Identifier ''p'', 0), (NextOp (Some 1) (Identifier ''p''), 0)]"
  by (simp add: eval_compile)

text \<open>
  C7, amended. The compiler does not check the steps of a \<open>NextOp\<close>: whenever the argument
  compiles and \<open>k \<le> 0\<close>, compiling \<open>NextOp(k, arg)\<close> raises no error and returns an
  automaton; its table is the table of the argument extended by the state \<open>NextOp(1, arg)\<close>,
  and \<open>NextOp(k, arg)\<close> itself has no state at any location.
\<close>

theorem next_nonpositive_steps:
  assumes "ExprMapper_init str lbl n attr = Inr m0" and "visit arg m0 = Inr m1" and "k \<le> 0"
  shows "\<exists>A. from_strel_expr str (NextOp (Some k) arg) lbl n attr = Inr A
           \<and> aut_transitions A
               = Transitions.truncate (add_transition (NextOp (Some 1) arg) (TVarOf arg) m1)
           \<and> (\<forall>loc. (NextOp (Some k) arg, loc) \<notin> set (states A))"
proof -
  let ?m = "add_transition (NextOp (Some 1) arg) (TVarOf arg) m1"
  have v: "visit (NextOp (Some k) arg) m0 = Inr ?m"
    using assms(2,3) by (simp add: visit_NextOp expand_add_next_def)
  have keys: "set (map fst (transitions ?m)) = set (map fst (const_mapping ?m))"
    by (rule table_consistency_aux[OF assms(1) v])
  have n: "max_locs m1 = n" "0 < n"
    using visit_fields[OF assms(2)] init_facts(3,4)[OF assms(1)] by simp_all
  then have "(NextOp (Some 1) arg, 0) \<in> fst ` set (const_mapping ?m)"
    by (auto simp: add_transition_keys)
  then obtain p ps where ne: "map snd (const_mapping ?m) = p # ps"
    by (cases "const_mapping ?m") auto
  have can: "canonical ?m"
    by (rule canonical_visit[OF v init_facts(2)[OF assms(1)]])
  have "(NextOp (Some k) arg, loc) \<notin> fst ` set (transitions ?m)" for loc
  proof
    assume "(NextOp (Some k) arg, loc) \<in> fst ` set (transitions ?m)"
    then obtain x where "map_of (transitions ?m) (NextOp (Some k) arg, loc) = Some x"
      by (metis domD dom_map_of_conv_image_fst)
    then have "installable (NextOp (Some k) arg)"
      using canonicalD[OF can, of "NextOp (Some k) arg" loc "fst x" "snd x"] by simp
    then show False using assms(3) by simp
  qed
  then have none: "(NextOp (Some k) arg, loc) \<notin> set (map fst (const_mapping ?m))" for loc
    using keys by simp
  show ?thesis
    using assms(1) v keys ne none
    by (simp add: from_strel_expr_def StrelAutomaton_init_def states_def Transitions.truncate_def)
qed

text \<open>The amended C7 at \<open>NextOp(0, p)\<close> on one location.\<close>

theorem next_nonpositive_steps_witness:
  "\<exists>m0 m1 A. ExprMapper_init (\<lambda>_. []) (\<lambda>_ _ _. True) 1 None = Inr m0
     \<and> visit (Identifier ''p'') m0 = Inr m1 \<and> (0::int) \<le> 0
     \<and> from_strel_expr (\<lambda>_. []) (NextOp (Some 0) (Identifier ''p'')) (\<lambda>_ _ _. True) 1 None = Inr A
     \<and> (NextOp (Some 0) (Identifier ''p''), 0) \<notin> set (states A)"
proof -
  obtain m0 where a: "ExprMapper_init (\<lambda>_. []) (\<lambda>_ _ _. True) 1 None = Inr m0"
    by (simp add: ExprMapper_init_def)
  obtain m1 where b: "visit (Identifier ''p'') m0 = Inr m1"
    by (simp add: visit_rules)
  from next_nonpositive_steps[OF a b, of 0] a b show ?thesis by auto
qed

text \<open>
  C8 as stated fails: \<^verbatim>\<open>make_bool_automaton\<close> called without \<open>dist_attr\<close> compiles a
  reach transition that reads edge distances under \<open>"hop"\<close>, not under \<open>"weight"\<close>.
\<close>

theorem make_bool_automaton_reads_hop:
  "\<exists>A. make_bool_automaton (\<lambda>e. case e of Identifier n \<Rightarrow> n | _ \<Rightarrow> ''reach'')
          (ReachOp (Identifier ''p'') (DistanceInterval None (Some (Fin 1))) (Identifier ''q''))
          (\<lambda>_ _ _. True) 1 None = Inr A
     \<and> map_of (transitions (aut_transitions A))
          (ReachOp (Identifier ''p'') (DistanceInterval None (Some (Fin 1))) (Identifier ''q''), 0)
        = Some (TCheckReach (Identifier ''p'') (Identifier ''q'') 0 (Fin 1) ''hop'', 0)
     \<and> ''hop'' \<noteq> ''weight''"
  by (simp add: eval_compile)

text \<open>
  C8, amended. When the caller supplies no distance attribute name, every reach transition
  of an automaton built by \<^verbatim>\<open>from_strel_expr\<close> reads edge distances under \<open>"weight"\<close>,
  and every reach transition of an automaton built by \<^verbatim>\<open>make_bool_automaton\<close> reads
  them under \<open>"hop"\<close>, the default of that function.
\<close>

theorem default_dist_attr:
  "(from_strel_expr str phi lbl n None = Inr A
      \<longrightarrow> map_of (transitions (aut_transitions A)) q = Some (TCheckReach lhs rhs d1 d2 a, loc)
      \<longrightarrow> a = ''weight'')
   \<and> (make_bool_automaton str phi lbl n None = Inr A
      \<longrightarrow> map_of (transitions (aut_transitions A)) q = Some (TCheckReach lhs rhs d1 d2 a, loc)
      \<longrightarrow> a = ''hop'')"
  using compiled_reach_attr[of str phi lbl n None A q lhs rhs d1 d2 a loc]
    compiled_reach_attr[of str phi lbl n "Some ''hop''" A q lhs rhs d1 d2 a loc]
  by (auto simp: make_bool_automaton_def)


text \<open>The amended C8 at \<open>p R q\<close> on one location, for both entry points.\<close>

theorem default_dist_attr_witness:
  "\<exists>A B a b.
     from_strel_expr (\<lambda>_. []) (ReachOp (Identifier ''p'') (DistanceInterval None None) (Identifier ''q''))
       (\<lambda>_ _ _. True) 1 None = Inr A
     \<and> map_of (transitions (aut_transitions A))
          (ReachOp (Identifier ''p'') (DistanceInterval None None) (Identifier ''q''), 0)
        = Some (TCheckReach (Identifier ''p'') (Identifier ''q'') 0 PInf a, 0)
     \<and> a = ''weight''
     \<and> make_bool_automaton (\<lambda>_. []) (ReachOp (Identifier ''p'') (DistanceInterval None None) (Identifier ''q''))
       (\<lambda>_ _ _. True) 1 None = Inr B
     \<and> map_of (transitions (aut_transitions B))
          (ReachOp (Identifier ''p'') (DistanceInterval None None) (Identifier ''q''), 0)
        = Some (TCheckReach (Identifier ''p'') (Identifier ''q'') 0 PInf b, 0)
     \<and> b = ''hop''"
proof -
  let ?phi = "ReachOp (Identifier ''p'') (DistanceInterval None None) (Identifier ''q'')"
  obtain A a where A: "from_strel_expr (\<lambda>_. []) ?phi (\<lambda>_ _ _. True) 1 None = Inr A"
    and a: "map_of (transitions (aut_transitions A)) (?phi, 0)
              = Some (TCheckReach (Identifier ''p'') (Identifier ''q'') 0 PInf a, 0)"
    by (simp add: eval_compile)
  obtain B b where B: "make_bool_automaton (\<lambda>_. []) ?phi (\<lambda>_ _ _. True) 1 None = Inr B"
    and b: "map_of (transitions (aut_transitions B)) (?phi, 0)
              = Some (TCheckReach (Identifier ''p'') (Identifier ''q'') 0 PInf b, 0)"
    by (simp add: eval_compile)
  have "a = ''weight''"
    using default_dist_attr[of "\<lambda>_. []" ?phi "\<lambda>_ _ _. True" 1 A "(?phi, 0)" _ _ _ _ a 0] A a by blast
  moreover have "b = ''hop''"
    using default_dist_attr[of "\<lambda>_. []" ?phi "\<lambda>_ _ _. True" 1 B "(?phi, 0)" _ _ _ _ b 0] B b by blast
  ultimately show ?thesis using A a B b by blast
qed



text \<open>
  C3 fails on the code: the \<open>EverywhereOp\<close> branch of \<^verbatim>\<open>visit\<close> rewrites, compiles
  the rewrite and installs the alias, and then raises \<open>NotImplementedError()\<close>. Compiling
  \<open>EverywhereOp(I, p)\<close> for a predicate \<open>p\<close> returns that error and no automaton.
\<close>

theorem everywhere_raises:
  "from_strel_expr str (EverywhereOp I (Identifier p)) lbl (Suc n) attr
     = Inl (NotImplementedError [])"
  by (simp add: from_strel_expr_def ExprMapper_init_def visit_rules expand_add_reach_def)


text \<open>
  C9 fails on the code: the test \<open>str(phi) in self.expr_var_map.keys()\<close> compares a
  string with the tuples \<open>(phi, loc)\<close> and never succeeds (\<open>already_visited_False\<close>).
  A second visit of the compiled formula \<open>p\<close> runs \<^verbatim>\<open>_add_transition\<close> again: the
  manager's \<open>declare\<close> is called once more for every location.
\<close>

theorem second_visit_not_skipped:
  "\<exists>m0 m1 m2.
     ExprMapper_init str lbl (Suc n) attr = Inr m0
     \<and> visit (Identifier p) m0 = Inr m1
     \<and> (Identifier p, 0) \<in> set (map fst (const_mapping m1))
     \<and> visit (Identifier p) m1 = Inr m2
     \<and> declared m2 = declared m1 @ map (\<lambda>loc. (str (Identifier p), loc)) [0..<Suc n]
     \<and> m2 \<noteq> m1"
proof -
  obtain m0 where a: "ExprMapper_init str lbl (Suc n) attr = Inr m0"
    and a': "max_locs m0 = Suc n" "str_expr m0 = str"
    by (simp add: ExprMapper_init_def)
  let ?m1 = "add_transition (Identifier p) (TLabel (Identifier p)) m0"
  let ?m2 = "add_transition (Identifier p) (TLabel (Identifier p)) ?m1"
  have b: "visit (Identifier p) m0 = Inr ?m1" and c: "visit (Identifier p) ?m1 = Inr ?m2"
    by (simp_all add: visit_rules)
  have d: "(Identifier p, 0) \<in> fst ` set (const_mapping ?m1)"
    using a' by (auto simp: add_transition_keys)
  have e: "declared ?m2 = declared ?m1 @ map (\<lambda>loc. (str (Identifier p), loc)) [0..<Suc n]"
    using a' by (subst add_transition_eq) simp
  have "?m2 \<noteq> ?m1"
  proof
    assume "?m2 = ?m1"
    then have "declared ?m2 = declared ?m1" by simp
    with e show False by simp
  qed
  with a b c d e show ?thesis by auto
qed

section \<open>The loop of the path enumerator\<close>





























lemma ext_paths_empty [simp]: "ext_paths G loc d1 d2 attr vs {} = {}"
  by (simp add: ext_paths_def)























section \<open>The claim about the path enumerator\<close>



section \<open>The two evaluation orders agree whenever the reverse order returns\<close>

lemmas eval_run = check_run_def initial_at_def get_var_def resolve_alias_def final_mapping_def
  afa_next_def dict_get_def make_q_str_def apply_transition_def poly_const_def

lemma poly_eval_strict:
  "poly_eval c p = Inr b \<Longrightarrow> set (support p) \<subseteq> dom c"
  by (induction p arbitrary: b) (auto split: option.splits sum.splits)

lemma poly_eval_add:
  "poly_eval c a = Inr x \<Longrightarrow> poly_eval c b = Inr y \<Longrightarrow> poly_eval c (poly_add a b) = Inr (x \<or> y)"
  by (auto simp: poly_add_def)

lemma poly_eval_mul:
  "poly_eval c a = Inr x \<Longrightarrow> poly_eval c b = Inr y \<Longrightarrow> poly_eval c (poly_mul a b) = Inr (x \<and> y)"
  by (auto simp: poly_mul_def)

lemma poly_eval_negate:
  "poly_eval c a = Inr x \<Longrightarrow> poly_eval c (poly_negate a) = Inr (\<not> x)"
  by (cases a) (auto simp: poly_negate_def)

lemma poly_let_eval:
  assumes "\<forall>v \<in> set (support S). \<exists>p k. s v = Some p \<and> poly_eval c p = Inr k \<and> c' v = Some k"
  shows "\<exists>b. poly_eval c (poly_let s S) = Inr b \<and> poly_eval c' S = Inr b"
  using assms
proof (induction S)
  case (PAdd S1 S2)
  then obtain b1 b2 where "poly_eval c (poly_let s S1) = Inr b1" "poly_eval c' S1 = Inr b1"
    "poly_eval c (poly_let s S2) = Inr b2" "poly_eval c' S2 = Inr b2"
    by force
  then show ?case by (simp add: poly_eval_add)
next
  case (PMul S1 S2)
  then obtain b1 b2 where "poly_eval c (poly_let s S1) = Inr b1" "poly_eval c' S1 = Inr b1"
    "poly_eval c (poly_let s S2) = Inr b2" "poly_eval c' S2 = Inr b2"
    by force
  then show ?case by (simp add: poly_eval_mul)
next
  case (PNeg S)
  then obtain b where "poly_eval c (poly_let s S) = Inr b" "poly_eval c' S = Inr b"
    by force
  then show ?case by (simp add: poly_eval_negate)
qed auto

lemma new_costs_result:
  "new_costs depth A input C qs = Inr C' \<Longrightarrow>
     list_all2 (\<lambda>q vk. fst vk = make_q_str A q
                  \<and> (\<exists>p. call depth (aut_transitions A) input q = Inr p
                           \<and> poly_eval (dict_get C) p = Inr (snd vk))) qs C'"
  by (induction qs arbitrary: C') (auto split: sum.splits)

lemma new_costs_covers:
  assumes "new_costs depth A input C (states A) = Inr C'"
  shows "covers A C'"
proof -
  have "list_all2 (\<lambda>q vk. fst vk = make_q_str A q) (states A) C'"
    using new_costs_result[OF assms] by (rule list_all2_mono) simp
  then have "map fst C' = map (make_q_str A) (states A)"
    by (induction rule: list_all2_induct) auto
  then have "set (map fst C') = set (map (make_q_str A) (states A))" by simp
  then show ?thesis by (simp add: covers_def state_names_def)
qed

lemma new_costs_lookup:
  assumes nc: "new_costs depth A input C (states A) = Inr C'"
    and inj: "inj_on (make_q_str A) (set (states A))"
    and q: "q \<in> set (states A)"
  shows "\<exists>p k. call depth (aut_transitions A) input q = Inr p
            \<and> poly_eval (dict_get C) p = Inr k
            \<and> dict_get C' (make_q_str A q) = Some k"
proof -
  have "make_q_str A q \<in> fst ` set (rev C')"
    using new_costs_covers[OF nc] q by (simp add: covers_def state_names_def)
  then obtain k where k: "map_of (rev C') (make_q_str A q) = Some k"
    by (metis domD dom_map_of_conv_image_fst)
  then have "(make_q_str A q, k) \<in> set C'" using map_of_SomeD by fastforce
  then obtain i where i: "i < length C'" "C' ! i = (make_q_str A q, k)"
    by (auto simp: in_set_conv_nth)
  note la = new_costs_result[OF nc]
  have len: "length (states A) = length C'" using la by (rule list_all2_lengthD)
  define q' where "q' = states A ! i"
  have "fst (C' ! i) = make_q_str A q'
          \<and> (\<exists>p. call depth (aut_transitions A) input q' = Inr p
                   \<and> poly_eval (dict_get C) p = Inr (snd (C' ! i)))"
    unfolding q'_def using list_all2_nthD2[OF la i(1)] .
  then have q': "q' \<in> set (states A)" "make_q_str A q = make_q_str A q'"
    "\<exists>p. call depth (aut_transitions A) input q' = Inr p \<and> poly_eval (dict_get C) p = Inr k"
    using i len by (simp_all add: q'_def)
  then have "q' = q" using inj q by (auto dest: inj_onD)
  then show ?thesis using q'(3) k by (auto simp: dict_get_def)
qed

lemma next_transitions_result:
  assumes "\<forall>v \<in> set vars. \<exists>q p. map_of (aut_var_node_map A) v = Some q
                \<and> call depth (aut_transitions A) input q = Inr p \<and> f v = p"
  shows "next_transitions depth A input vars = Inr (map (\<lambda>v. (v, f v)) vars)"
  using assms by (induction vars) auto

lemma dict_get_map: "dict_get (map (\<lambda>v. (v, f v)) vars) v = (if v \<in> set vars then Some (f v) else None)"
proof -
  have "map_of (map (\<lambda>v. (v, f v)) xs) v = (if v \<in> set xs then Some (f v) else None)" for xs
    by (induction xs) auto
  from this[of "rev vars"] show ?thesis by (simp add: dict_get_def rev_map)
qed

lemma afa_next_agrees:
  assumes wn: "well_named A" and cov: "covers A C"
    and nc: "new_costs depth A input C (states A) = Inr C'"
    and S: "set (support S) \<subseteq> state_names A"
  shows "\<exists>S' b. afa_next depth A input S = Inr S'
           \<and> set (support S') \<subseteq> state_names A
           \<and> poly_eval (dict_get C) S' = Inr b
           \<and> poly_eval (dict_get C') S = Inr b"
proof -
  let ?T = "aut_transitions A"
  define f where "f v = (case map_of (aut_var_node_map A) v of
                           Some q \<Rightarrow> (case call depth ?T input q of Inr p \<Rightarrow> p | Inl e \<Rightarrow> PTop)
                         | None \<Rightarrow> PTop)" for v
  have inj: "inj_on (make_q_str A) (set (states A))" using wn by (simp add: well_named_def)
  have each: "\<exists>q p k. map_of (aut_var_node_map A) v = Some q
                \<and> call depth ?T input q = Inr p \<and> f v = p
                \<and> poly_eval (dict_get C) p = Inr k \<and> dict_get C' v = Some k"
    if "v \<in> set (support S)" for v
  proof -
    have "v \<in> state_names A" using that S by blast
    then obtain q where q: "q \<in> set (states A)" "v = make_q_str A q"
      unfolding state_names_def by blast
    then have m: "map_of (aut_var_node_map A) v = Some q" using wn by (simp add: well_named_def)
    from new_costs_lookup[OF nc inj q(1)] obtain p k where
      "call depth ?T input q = Inr p" "poly_eval (dict_get C) p = Inr k"
      "dict_get C' (make_q_str A q) = Some k"
      by blast
    then show ?thesis using m q(2) by (auto simp: f_def)
  qed
  then have "next_transitions depth A input (support S) = Inr (map (\<lambda>v. (v, f v)) (support S))"
    by (intro next_transitions_result) blast
  then have nx: "afa_next depth A input S
                  = Inr (poly_let (dict_get (map (\<lambda>v. (v, f v)) (support S))) S)"
    by (simp add: afa_next_def)
  let ?S' = "poly_let (dict_get (map (\<lambda>v. (v, f v)) (support S))) S"
  have "\<forall>v \<in> set (support S). \<exists>p k. dict_get (map (\<lambda>v. (v, f v)) (support S)) v = Some p
            \<and> poly_eval (dict_get C) p = Inr k \<and> dict_get C' v = Some k"
    using each by (auto simp: dict_get_map)
  from poly_let_eval[OF this] obtain b where
    b: "poly_eval (dict_get C) ?S' = Inr b" "poly_eval (dict_get C') S = Inr b"
    by blast
  have "set (support ?S') \<subseteq> dom (dict_get C)" by (rule poly_eval_strict[OF b(1)])
  also have "dom (dict_get C) = state_names A"
    using cov by (simp add: dict_get_def covers_def dom_map_of_conv_image_fst)
  finally show ?thesis using nx b by blast
qed

lemma run_reverse_snoc:
  "run_reverse depth A (xs @ [input]) C =
     (case run_reverse depth A xs C of Inl e \<Rightarrow> Inl e
      | Inr C1 \<Rightarrow> new_costs depth A input C1 (states A))"
  by (induction xs arbitrary: C) (auto split: sum.splits)

lemma run_reverse_covers:
  "covers A C \<Longrightarrow> run_reverse depth A xs C = Inr C' \<Longrightarrow> covers A C'"
  by (induction xs arbitrary: C) (auto split: sum.splits dest: new_costs_covers)

lemma runs_agree:
  assumes wn: "well_named A" and cov: "covers A F"
  shows "run_reverse depth A (rev trace) F = Inr C \<Longrightarrow> set (support S) \<subseteq> state_names A \<Longrightarrow>
     poly_eval (dict_get C) S = Inr b \<Longrightarrow>
     \<exists>S'. run_forward depth A trace S = Inr S' \<and> poly_eval (dict_get F) S' = Inr b"
proof (induction trace arbitrary: S C b)
  case Nil
  then show ?case by simp
next
  case (Cons input trace)
  from Cons.prems(1) obtain C1 where
    C1: "run_reverse depth A (rev trace) F = Inr C1" "new_costs depth A input C1 (states A) = Inr C"
    by (auto simp: run_reverse_snoc split: sum.splits)
  have cov1: "covers A C1" by (rule run_reverse_covers[OF cov C1(1)])
  from afa_next_agrees[OF wn cov1 C1(2) Cons.prems(2)] obtain S1 b1 where
    S1: "afa_next depth A input S = Inr S1" "set (support S1) \<subseteq> state_names A"
      "poly_eval (dict_get C1) S1 = Inr b1" "poly_eval (dict_get C) S = Inr b1"
    by blast
  then have "b1 = b" using Cons.prems(3) by simp
  with Cons.IH[OF C1(1) S1(2)] S1(3) obtain S' where
    "run_forward depth A trace S1 = Inr S'" "poly_eval (dict_get F) S' = Inr b"
    by blast
  then show ?case using S1(1) by simp
qed

lemma final_mapping_covers: "covers A (final_mapping A)"
  by (auto simp: covers_def final_mapping_def state_names_def make_q_str_def image_image
      case_prod_unfold)

lemma initial_at_support:
  assumes wn: "well_named A" and "initial_at A loc = Inr S"
  shows "set (support S) \<subseteq> state_names A"
proof -
  let ?T = "aut_transitions A"
  obtain phi l where r: "resolve_alias ?T (initial_expr A, loc) = (phi, l)"
    by (cases "resolve_alias ?T (initial_expr A, loc)") auto
  show ?thesis
  proof (cases "\<exists>v. phi = Constant v")
    case True
    then show ?thesis using assms(2) r by (auto simp: initial_at_def get_var_def split: if_splits)
  next
    case False
    then have "map_of (const_mapping ?T) (phi, l) = Some S"
      using assms(2) r by (cases phi) (auto simp: initial_at_def get_var_def split: option.splits)
    then have "((phi, l), S) \<in> set (const_mapping ?T)" by (rule map_of_SomeD)
    then have "S = PVar (make_q_str A (phi, l))" "(phi, l) \<in> set (states A)"
      using wn by (auto simp: well_named_def states_def intro: rev_image_eqI)
    then show ?thesis by (auto simp: state_names_def)
  qed
qed

lemma reverse_verdict_is_forward_verdict_aux:
  assumes wn: "well_named A" and rv: "check_run depth A ego trace True = Inr v"
  shows "check_run depth A ego trace False = Inr v"
proof -
  from rv obtain C S where C: "run_reverse depth A (rev trace) (final_mapping A) = Inr C"
    and S: "initial_at A ego = Inr S" and v: "poly_eval (dict_get C) S = Inr v"
    by (auto simp: check_run_def split: sum.splits)
  from runs_agree[OF wn final_mapping_covers C initial_at_support[OF wn S] v] obtain S' where
    "run_forward depth A trace S = Inr S'" "poly_eval (dict_get (final_mapping A)) S' = Inr v"
    by blast
  then show ?thesis using S by (simp add: check_run_def)
qed

lemma named_const: "named m \<Longrightarrow> (q, p) \<in> set (const_mapping m) \<Longrightarrow> p = PVar (str_expr m (fst q), snd q)"
  unfolding named_def by blast

lemma named_var: "named m \<Longrightarrow> (v, q) \<in> set (var_node_map m) \<Longrightarrow> v = (str_expr m (fst q), snd q)"
  unfolding named_def by blast

lemma named_key: "named m \<Longrightarrow> q \<in> fst ` set (const_mapping m) \<Longrightarrow>
    (str_expr m (fst q), snd q) \<in> fst ` set (var_node_map m)"
  unfolding named_def by blast

lemma set_setdefault: "set (setdefault k v d) \<subseteq> insert (k, v) (set d)"
  by (auto simp: setdefault_def split: option.splits)

lemma set_fold_setdefault:
  "set (fold (\<lambda>x. setdefault (f x) (g x)) xs d) \<subseteq> set d \<union> (\<lambda>x. (f x, g x)) ` set xs"
proof (induction xs arbitrary: d)
  case Nil
  then show ?case by simp
next
  case (Cons x xs)
  show ?case using Cons.IH[of "setdefault (f x) (g x) d"] set_setdefault[of "f x" "g x" d]
    by auto
qed

lemma named_add_transition: "named m \<Longrightarrow> named (add_transition phi tr m)"
proof -
  assume n: "named m"
  let ?n = "max_locs m"
  let ?cm = "fold (\<lambda>loc. setdefault (phi, loc) (PVar (str_expr m phi, loc))) [0..<?n] (const_mapping m)"
  let ?vm = "fold (\<lambda>loc. setdefault (str_expr m phi, loc) (phi, loc)) [0..<?n] (var_node_map m)"
  have 1: "p = PVar (str_expr m (fst q), snd q)" if "(q, p) \<in> set ?cm" for q p
  proof -
    have "(q, p) \<in> set (const_mapping m) \<or> (q, p) \<in> (\<lambda>loc. ((phi, loc), PVar (str_expr m phi, loc))) ` set [0..<?n]"
      using that set_fold_setdefault[of "\<lambda>loc. (phi, loc)" "\<lambda>loc. PVar (str_expr m phi, loc)" "[0..<?n]" "const_mapping m"]
      by blast
    then show ?thesis
    proof
      assume "(q, p) \<in> set (const_mapping m)"
      then show ?thesis using n unfolding named_def by blast
    next
      assume "(q, p) \<in> (\<lambda>loc. ((phi, loc), PVar (str_expr m phi, loc))) ` set [0..<?n]"
      then show ?thesis by auto
    qed
  qed
  have 2: "v = (str_expr m (fst q), snd q)" if "(v, q) \<in> set ?vm" for v q
  proof -
    have "(v, q) \<in> set (var_node_map m) \<or> (v, q) \<in> (\<lambda>loc. ((str_expr m phi, loc), (phi, loc))) ` set [0..<?n]"
      using that set_fold_setdefault[of "\<lambda>loc. (str_expr m phi, loc)" "\<lambda>loc. (phi, loc)" "[0..<?n]" "var_node_map m"]
      by blast
    then show ?thesis
    proof
      assume "(v, q) \<in> set (var_node_map m)"
      then show ?thesis using n unfolding named_def by blast
    next
      assume "(v, q) \<in> (\<lambda>loc. ((str_expr m phi, loc), (phi, loc))) ` set [0..<?n]"
      then show ?thesis by auto
    qed
  qed
  have 3: "(str_expr m (fst q), snd q) \<in> fst ` set ?vm" if "q \<in> fst ` set ?cm" for q
  proof -
    have "q \<in> (\<lambda>loc. (phi, loc)) ` set [0..<?n] \<or> q \<in> fst ` set (const_mapping m)"
      using that by (simp only: keys_fold_setdefault) blast
    then have "(str_expr m (fst q), snd q) \<in> (\<lambda>loc. (str_expr m phi, loc)) ` set [0..<?n]
                 \<union> fst ` set (var_node_map m)"
      using n by (auto simp: named_def)
    then show ?thesis by (simp only: keys_fold_setdefault)
  qed
  show ?thesis
    unfolding named_def add_transition_eq using 1 2 3 by simp
qed

lemma named_add_expr_alias: "named m \<Longrightarrow> named (add_expr_alias phi e m)"
proof -
  assume n: "named m"
  let ?n = "max_locs m"
  let ?vm = "fold (\<lambda>loc. setdefault (str_expr m phi, loc) (phi, loc)) [0..<?n] (var_node_map m)"
  have 2: "v = (str_expr m (fst q), snd q)" if "(v, q) \<in> set ?vm" for v q
  proof -
    have "(v, q) \<in> set (var_node_map m) \<or> (v, q) \<in> (\<lambda>loc. ((str_expr m phi, loc), (phi, loc))) ` set [0..<?n]"
      using that set_fold_setdefault[of "\<lambda>loc. (str_expr m phi, loc)" "\<lambda>loc. (phi, loc)" "[0..<?n]" "var_node_map m"]
      by blast
    then show ?thesis
    proof
      assume "(v, q) \<in> set (var_node_map m)"
      then show ?thesis using n unfolding named_def by blast
    next
      assume "(v, q) \<in> (\<lambda>loc. ((str_expr m phi, loc), (phi, loc))) ` set [0..<?n]"
      then show ?thesis by auto
    qed
  qed
  have 3: "(str_expr m (fst q), snd q) \<in> fst ` set ?vm" if "q \<in> fst ` set (const_mapping m)" for q
    using that n by (simp only: keys_fold_setdefault) (auto simp: named_def)
  show ?thesis
    unfolding named_def add_expr_alias_eq using n 2 3 by (simp add: named_def)
qed

lemma named_visit: "visit phi m = Inr m' \<Longrightarrow> named m \<Longrightarrow> named m'"
  by (erule visit_preserves[of named, rotated 2])
     (simp_all add: named_add_transition named_add_expr_alias)

lemma compiled_well_named:
  assumes A: "from_strel_expr str phi lbl n attr = Inr A" and inj: "inj_on str (named_exprs A)"
  shows "well_named A"
proof -
  obtain m0 m where m: "ExprMapper_init str lbl n attr = Inr m0" "visit phi m0 = Inr m"
    and Ai: "StrelAutomaton_init phi (Transitions.truncate m) (var_node_map m) = Inr A"
    using A by (auto simp: from_strel_expr_def split: sum.splits)
  have "named m0" using m(1) by (auto simp: ExprMapper_init_def named_def split: if_splits)
  then have nm: "named m" by (rule named_visit[OF m(2)])
  have str: "str_expr m = str" using visit_fields[OF m(2)] init_facts(8)[OF m(1)] by simp
  have A1: "const_mapping (aut_transitions A) = const_mapping m"
    "aut_var_node_map A = var_node_map m" "str_expr (aut_transitions A) = str"
    using Ai str by (auto simp: StrelAutomaton_init_def Transitions.truncate_def
        split: if_splits list.splits)
  have mk: "make_q_str A q = (str (fst q), snd q)" for q
    by (simp add: make_q_str_def A1)
  have st: "set (states A) = fst ` set (const_mapping m)" by (simp add: states_def A1)
  have injD': "a = b" if "str a = str b" "a \<in> named_exprs A" "b \<in> named_exprs A" for a b
    using inj that by (rule inj_onD)
  have stn: "fst q \<in> named_exprs A" if "q \<in> set (states A)" for q
    using that unfolding named_exprs_def by blast
  have injq: "inj_on (make_q_str A) (set (states A))"
  proof (rule inj_onI)
    fix x y assume x: "x \<in> set (states A)" and y: "y \<in> set (states A)"
      and e: "make_q_str A x = make_q_str A y"
    from e have "str (fst x) = str (fst y)" "snd x = snd y" by (simp_all add: mk)
    with injD'[OF _ stn[OF x] stn[OF y]] show "x = y" by (simp add: prod_eq_iff)
  qed
  have look: "map_of (aut_var_node_map A) (make_q_str A q) = Some q" if "q \<in> set (states A)" for q
  proof -
    have "make_q_str A q \<in> fst ` set (var_node_map m)"
      using nm that unfolding named_def st mk str by blast
    then obtain q' where q': "map_of (var_node_map m) (make_q_str A q) = Some q'"
      by (metis domD dom_map_of_conv_image_fst)
    then have in_vm: "(make_q_str A q, q') \<in> set (var_node_map m)" by (rule map_of_SomeD)
    then have "make_q_str A q = make_q_str A q'" using named_var[OF nm] unfolding mk str by blast
    then have e: "str (fst q') = str (fst q)" "snd q' = snd q" by (simp_all add: mk)
    have "q' \<in> snd ` set (aut_var_node_map A)" using in_vm unfolding A1 by force
    then have "fst q' \<in> named_exprs A" unfolding named_exprs_def by blast
    from injD'[OF e(1) this stn[OF that]] e(2) have "q' = q" by (simp add: prod_eq_iff)
    then show ?thesis using q' by (simp add: A1)
  qed
  have vars: "p = PVar (make_q_str A q)" if "(q, p) \<in> set (const_mapping (aut_transitions A))" for q p
    using that named_const[OF nm] unfolding A1 mk str by blast
  show ?thesis unfolding well_named_def using look injq vars by blast
qed

lemma reverse_verdict_is_forward_verdict:
  assumes "from_strel_expr str phi lbl n attr = Inr A" and "inj_on str (named_exprs A)"
    and "check_run depth A ego trace True = Inr v"
  shows "check_run depth A ego trace False = Inr v"
  using reverse_verdict_is_forward_verdict_aux[OF compiled_well_named[OF assms(1,2)] assms(3)] .

text \<open>
  The lemma is not vacuous: \<open>X[1] p\<close> compiles, its names are distinct, and on a trace of two
  graphs both orders return the label of \<open>p\<close> in the second graph.
\<close>

lemma reverse_verdict_is_forward_verdict_example:
  "\<exists>A. from_strel_expr example_str (NextOp (Some 1) (Identifier ''p'')) lbl 1 None = Inr A
     \<and> inj_on example_str (named_exprs A)
     \<and> check_run (Suc (Suc depth)) A 0 [G, H] True = Inr (lbl H 0 ''p'')
     \<and> check_run (Suc (Suc depth)) A 0 [G, H] False = Inr (lbl H 0 ''p'')"
  by (simp add: eval_compile eval_run example_str_def named_exprs_def states_def)

section \<open>The claim about the two evaluation orders\<close>

text \<open>
  C2 fails on the code at \<open>F[2,2] p\<close>, a formula of the fragment. The compiler rewrites it
  to \<open>X[2] F[0,0] p\<close>; for \<open>F[0,0] p\<close> the loop over \<open>range(0, 0, -1)\<close> installs no state,
  so the transition of \<open>X[1] F[0,0] p\<close> refers to a state that does not exist. On a trace of
  one graph the forward order never runs that transition and returns a verdict; the
  reverse order runs the transition of every state and raises \<open>KeyError\<close>. This holds for
  every labelling, every graph and every bound on nested calls, and the four formulas that
  are given a name have four different names. Lemma \<open>reverse_verdict_is_forward_verdict\<close>
  shows that this is the only way the two orders differ: a verdict of the reverse order is
  the verdict of the forward order.
\<close>

theorem mode_disagreement:
  "\<exists>A. from_strel_expr example_str
          (EventuallyOp (Some (TimeInterval (Some 2) (Some 2))) (Identifier ''p'')) lbl 1 None = Inr A
     \<and> states A = [(Identifier ''p'', 0),
                    (NextOp (Some 2) (EventuallyOp (Some (TimeInterval (Some 0) (Some 0))) (Identifier ''p'')), 0),
                    (NextOp (Some 1) (EventuallyOp (Some (TimeInterval (Some 0) (Some 0))) (Identifier ''p'')), 0)]
     \<and> map fst (aut_var_node_map A) = [(''p'', 0), (''X2'', 0), (''X1'', 0), (''F22'', 0)]
     \<and> check_run (Suc depth) A 0 [G] False = Inr False
     \<and> check_run (Suc depth) A 0 [G] True = Inl KeyError"
  by (simp add: eval_compile eval_run example_str_def)

end
